theory Spec2Isabelle
  imports Complex_Main "HOL-Library.Multiset"
begin

section \<open>JavaScript numbers with their special values\<close>

text \<open>
  The grid solver and the quality estimator divide and take logarithms of numbers that
  can be zero or negative. JavaScript does not raise there: it yields \<open>Infinity\<close>,
  \<open>-Infinity\<close> or \<open>NaN\<close>, and every comparison with \<open>NaN\<close> is false. The type
  \<open>jsnum\<close> keeps these three values apart from the finite ones. Finite values are
  idealised as reals (no rounding, no overflow) and there is one zero, which behaves as
  \<open>+0\<close>.
\<close>

datatype jsnum = Fin real | PInf | NInf | NaN

fun js_div :: "jsnum \<Rightarrow> jsnum \<Rightarrow> jsnum" where
  "js_div (Fin a) (Fin b) =
     (if b = 0 then (if a = 0 then NaN else if 0 < a then PInf else NInf) else Fin (a / b))"
| "js_div (Fin a) PInf = Fin 0"
| "js_div (Fin a) NInf = Fin 0"
| "js_div PInf (Fin b) = (if 0 \<le> b then PInf else NInf)"
| "js_div NInf (Fin b) = (if 0 \<le> b then NInf else PInf)"
| "js_div PInf PInf = NaN"
| "js_div PInf NInf = NaN"
| "js_div NInf PInf = NaN"
| "js_div NInf NInf = NaN"
| "js_div NaN y = NaN"
| "js_div x NaN = NaN"

fun js_mul :: "jsnum \<Rightarrow> jsnum \<Rightarrow> jsnum" where
  "js_mul (Fin a) (Fin b) = Fin (a * b)"
| "js_mul (Fin a) PInf = (if a = 0 then NaN else if 0 < a then PInf else NInf)"
| "js_mul (Fin a) NInf = (if a = 0 then NaN else if 0 < a then NInf else PInf)"
| "js_mul PInf (Fin b) = (if b = 0 then NaN else if 0 < b then PInf else NInf)"
| "js_mul NInf (Fin b) = (if b = 0 then NaN else if 0 < b then NInf else PInf)"
| "js_mul PInf PInf = PInf"
| "js_mul PInf NInf = NInf"
| "js_mul NInf PInf = NInf"
| "js_mul NInf NInf = PInf"
| "js_mul NaN y = NaN"
| "js_mul x NaN = NaN"

text \<open>\<open>Math.log\<close>: \<open>NaN\<close> below zero, \<open>-Infinity\<close> at zero.\<close>

fun js_log :: "jsnum \<Rightarrow> jsnum" where
  "js_log (Fin a) = (if a < 0 then NaN else if a = 0 then NInf else Fin (ln a))"
| "js_log PInf = PInf"
| "js_log NInf = NaN"
| "js_log NaN = NaN"

fun js_abs :: "jsnum \<Rightarrow> jsnum" where
  "js_abs (Fin a) = Fin \<bar>a\<bar>"
| "js_abs PInf = PInf"
| "js_abs NInf = PInf"
| "js_abs NaN = NaN"

fun js_floor :: "jsnum \<Rightarrow> jsnum" where
  "js_floor (Fin a) = Fin (of_int \<lfloor>a\<rfloor>)"
| "js_floor PInf = PInf"
| "js_floor NInf = NInf"
| "js_floor NaN = NaN"

text \<open>The comparison \<open>x < y\<close>; false as soon as one side is \<open>NaN\<close>.\<close>

fun js_lt :: "jsnum \<Rightarrow> jsnum \<Rightarrow> bool" where
  "js_lt (Fin a) (Fin b) = (a < b)"
| "js_lt (Fin a) PInf = True"
| "js_lt NInf (Fin b) = True"
| "js_lt NInf PInf = True"
| "js_lt x y = False"

definition js_gt :: "jsnum \<Rightarrow> jsnum \<Rightarrow> bool" where
  "js_gt x y = js_lt y x"

fun js_ge :: "jsnum \<Rightarrow> jsnum \<Rightarrow> bool" where
  "js_ge NaN y = False"
| "js_ge x NaN = False"
| "js_ge x y = (\<not> js_lt x y)"

text \<open>\<open>Math.min\<close> and \<open>Math.max\<close> return \<open>NaN\<close> when an argument is \<open>NaN\<close>.\<close>

fun js_min :: "jsnum \<Rightarrow> jsnum \<Rightarrow> jsnum" where
  "js_min NaN y = NaN"
| "js_min x NaN = NaN"
| "js_min x y = (if js_lt y x then y else x)"

fun js_max :: "jsnum \<Rightarrow> jsnum \<Rightarrow> jsnum" where
  "js_max NaN y = NaN"
| "js_max x NaN = NaN"
| "js_max x y = (if js_lt x y then y else x)"


section \<open>The grid solver (\<open>src/puzzle/grid.ts\<close>)\<close>

record Grid =
  rows :: int
  cols :: int
  count :: int

text \<open>
  \<open>divisors\<close>: the loop \<open>for (let i = 1; i * i <= n; i++)\<close> pushes \<open>i\<close> and, when it
  differs, \<open>n / i\<close>; the result is sorted ascending. The loop variable starts at 1, so
  the test \<open>i \<noteq> 0\<close> only keeps the model away from HOL's \<open>n mod 0 = n\<close>.
\<close>

function divisors_loop :: "int \<Rightarrow> nat \<Rightarrow> int list \<Rightarrow> int list" where
  "divisors_loop n i out =
     (if int i * int i \<le> n
      then divisors_loop n (Suc i)
             (if i \<noteq> 0 \<and> n mod int i = 0
              then (if int i \<noteq> n div int i then out @ [int i, n div int i] else out @ [int i])
              else out)
      else out)"
  by pat_completeness auto
termination
  by (relation "measure (\<lambda>(n, i, out). nat (n + 1 - int i * int i))")
     (auto simp: algebra_simps)

declare divisors_loop.simps [simp del]

definition divisors :: "int \<Rightarrow> int list" where
  "divisors n = sort (divisors_loop n 1 [])"

text \<open>The running optimum \<open>best = { rows, cols, score }\<close> of \<open>findBestGrid\<close>.\<close>

record Best =
  b_rows :: int
  b_cols :: int
  b_score :: jsnum

text \<open>\<open>Math.abs(Math.log((cs / rs) / imageAspect))\<close>.\<close>

definition score_of :: "int \<Rightarrow> int \<Rightarrow> jsnum \<Rightarrow> jsnum" where
  "score_of cs rs imageAspect =
     js_abs (js_log (js_div (js_div (Fin (of_int cs)) (Fin (of_int rs))) imageAspect))"

text \<open>One iteration of \<open>for (const d of ds)\<close>.\<close>

definition best_step :: "int \<Rightarrow> jsnum \<Rightarrow> Best \<Rightarrow> int \<Rightarrow> Best" where
  "best_step pieceCount imageAspect best d =
     (let rs = d;
          cs = pieceCount div d;
          score = score_of cs rs imageAspect
      in if js_lt score (b_score best)
         then \<lparr>b_rows = rs, b_cols = cs, b_score = score\<rparr>
         else best)"

definition findBestGrid :: "int \<Rightarrow> jsnum \<Rightarrow> Grid" where
  "findBestGrid pieceCount imageAspect =
     (let ds = divisors pieceCount;
          best = foldl (best_step pieceCount imageAspect)
                   \<lparr>b_rows = 1, b_cols = pieceCount, b_score = PInf\<rparr> ds
      in if js_gt (score_of (b_cols best) (b_rows best) imageAspect)
                  (score_of (b_rows best) (b_cols best) imageAspect)
         then \<lparr>rows = b_cols best, cols = b_rows best, count = pieceCount\<rparr>
         else \<lparr>rows = b_rows best, cols = b_cols best, count = pieceCount\<rparr>)"


section \<open>The quality estimate and the gate in front of generation (\<open>App.tsx\<close>)\<close>

definition PIECE_COUNTS :: "int list" where
  "PIECE_COUNTS = [50, 100, 200, 500, 1000]"

record Quality =
  ok :: bool
  tilePx :: jsnum
  q_grid :: Grid

text \<open>\<open>estimateQualityForCount(size, count)\<close> with \<open>size = { w, h }\<close>.\<close>

definition estimateQualityForCount :: "jsnum \<Rightarrow> jsnum \<Rightarrow> int \<Rightarrow> Quality" where
  "estimateQualityForCount w h cnt =
     (let maxBoardPx = Fin 900;
          scale = js_min (Fin 1) (js_div maxBoardPx (js_max w h));
          g = findBestGrid cnt (js_div w h);
          tW = js_floor (js_mul (js_div w (Fin (of_int (cols g)))) scale);
          tH = js_floor (js_mul (js_div h (Fin (of_int (rows g)))) scale);
          px = js_min tW tH
      in \<lparr>ok = js_ge px (Fin 28), tilePx = px, q_grid = g\<rparr>)"

datatype load_error = QualityTooLow

text \<open>
  The head of \<open>loadPuzzleFromModal\<close>: the only test between the requested piece count
  and \<open>generatePieces(modalImg, q.grid, ...)\<close>. A count whose estimate is not \<open>ok\<close> is
  refused with a message unless it is 1000; otherwise \<open>q.grid\<close> goes on to generation.
\<close>

definition loadPuzzleFromModal_grid :: "jsnum \<Rightarrow> jsnum \<Rightarrow> int \<Rightarrow> load_error + Grid" where
  "loadPuzzleFromModal_grid w h pieceCount =
     (let q = estimateQualityForCount w h pieceCount
      in if \<not> ok q \<and> pieceCount \<noteq> 1000 then Inl QualityTooLow else Inr (q_grid q))"


section \<open>Edge specifications (\<open>generatePieces.ts\<close>)\<close>

text \<open>
  \<open>Math.random()\<close> reads ambient state. The model makes that state explicit: a stream
  \<open>rnd\<close> of the values the calls return, in order, and a counter \<open>k\<close> of the calls made
  so far. A function that draws returns the advanced counter.
\<close>

type_synonym random = "nat \<Rightarrow> real"

definition clamp :: "real \<Rightarrow> real \<Rightarrow> real \<Rightarrow> real" where
  "clamp n lo hi = max lo (min hi n)"

record EdgeSpec =
  sign :: int
  widthF :: real
  neckF :: real
  skewF :: real

text \<open>\<open>rand(min, max) = min + Math.random() * (max - min)\<close>, with the draw \<open>u\<close>.\<close>

definition rand :: "real \<Rightarrow> real \<Rightarrow> real \<Rightarrow> real" where
  "rand lo hi u = lo + u * (hi - lo)"

text \<open>The object literal of \<open>buildEdges\<close>: four draws, in the order of its properties.\<close>

definition newEdgeSpec :: "random \<Rightarrow> nat \<Rightarrow> EdgeSpec \<times> nat" where
  "newEdgeSpec rnd k =
     (\<lparr>sign = (if rnd k < 0.5 then 1 else - 1),
       widthF = rand 0.92 1.06 (rnd (k + 1)),
       neckF = rand 0.90 1.12 (rnd (k + 2)),
       skewF = rand (- 1) 1 (rnd (k + 3))\<rparr>, k + 4)"

text \<open>\<open>Array.from({ length: n }, () => ...)\<close>: \<open>n\<close> entries, built left to right.\<close>

fun edgeRow :: "random \<Rightarrow> nat \<Rightarrow> nat \<Rightarrow> EdgeSpec list \<times> nat" where
  "edgeRow rnd 0 k = ([], k)"
| "edgeRow rnd (Suc n) k =
     (let (e, k1) = newEdgeSpec rnd k;
          (es, k2) = edgeRow rnd n k1
      in (e # es, k2))"

fun edgeRows :: "random \<Rightarrow> nat \<Rightarrow> nat \<Rightarrow> nat \<Rightarrow> EdgeSpec list list \<times> nat" where
  "edgeRows rnd 0 n k = ([], k)"
| "edgeRows rnd (Suc m) n k =
     (let (row1, k1) = edgeRow rnd n k;
          (rest, k2) = edgeRows rnd m n k1
      in (row1 # rest, k2))"

record Edges =
  vEdges :: "EdgeSpec list list"
  hEdges :: "EdgeSpec list list"

text \<open>
  \<open>vEdges[r][c]\<close> separates \<open>(r, c)\<close> from \<open>(r, c + 1)\<close>; \<open>hEdges[r][c]\<close> separates
  \<open>(r, c)\<close> from \<open>(r + 1, c)\<close>. A negative length gives an empty array.
\<close>

definition buildEdges :: "Grid \<Rightarrow> random \<Rightarrow> nat \<Rightarrow> Edges \<times> nat" where
  "buildEdges g rnd k =
     (let (v, k1) = edgeRows rnd (nat (rows g)) (nat (max 0 (cols g - 1))) k;
          (h, k2) = edgeRows rnd (nat (max 0 (rows g - 1))) (nat (cols g)) k1
      in (\<lparr>vEdges = v, hEdges = h\<rparr>, k2))"

text \<open>A read \<open>m[r][c]\<close>; \<open>None\<close> where JavaScript finds \<open>undefined\<close>.\<close>

definition edgeAt :: "EdgeSpec list list \<Rightarrow> nat \<Rightarrow> nat \<Rightarrow> EdgeSpec option" where
  "edgeAt m r c = (if r < length m \<and> c < length (m ! r) then Some (m ! r ! c) else None)"

record PieceEdges =
  e_top :: EdgeSpec
  e_right :: EdgeSpec
  e_bottom :: EdgeSpec
  e_left :: EdgeSpec

definition flat :: EdgeSpec where
  "flat = \<lparr>sign = 0, widthF = 1, neckF = 1, skewF = 0\<rparr>"

text \<open>
  \<open>pieceEdges(grid, edges, r, c)\<close>. The top and the left edge copy the shared
  specification and negate its sign; the bottom and the right edge are the shared
  specification itself. The result is \<open>None\<close> when a specification is missing: the
  source then fails with a \<open>TypeError\<close>, here or at the first use of the edge.
\<close>

definition pieceEdges :: "Grid \<Rightarrow> Edges \<Rightarrow> nat \<Rightarrow> nat \<Rightarrow> PieceEdges option" where
  "pieceEdges g edges r c =
     (let top = (if r = 0 then Some flat
                 else map_option (\<lambda>e. e\<lparr>sign := - sign e\<rparr>) (edgeAt (hEdges edges) (r - 1) c));
          bottom = (if int r = rows g - 1 then Some flat else edgeAt (hEdges edges) r c);
          left = (if c = 0 then Some flat
                  else map_option (\<lambda>e. e\<lparr>sign := - sign e\<rparr>) (edgeAt (vEdges edges) r (c - 1)));
          right = (if int c = cols g - 1 then Some flat else edgeAt (vEdges edges) r c)
      in case (top, right, bottom, left) of
           (Some t, Some rt, Some b, Some l) \<Rightarrow>
             Some \<lparr>e_top = t, e_right = rt, e_bottom = b, e_left = l\<rparr>
         | _ \<Rightarrow> None)"


section \<open>Contours (\<open>buildJigsawPath\<close>)\<close>

text \<open>The calls made on the canvas context, in order.\<close>

datatype cmd =
    MoveTo real real
  | LineTo real real
  | BezierCurveTo real real real real real real
  | ClosePath

definition EDGE_A :: real where "EDGE_A = 0.28"
definition EDGE_B :: real where "EDGE_B = 0.72"

text \<open>\<open>dir\<close> and the mirrored \<open>skew\<close> of \<open>hEdgeAbs\<close> and \<open>vEdgeAbs\<close>.\<close>

definition edgeDir :: "real \<Rightarrow> real \<Rightarrow> real" where
  "edgeDir start end1 = (if end1 \<ge> start then 1 else - 1)"

definition edgeSkew :: "real \<Rightarrow> EdgeSpec \<Rightarrow> real" where
  "edgeSkew dir spec = (if dir = 1 then skewF spec else - skewF spec)"

text \<open>\<open>tab\<close> is the parameter of the enclosing \<open>buildJigsawPath\<close>.\<close>

definition hEdgeAbs :: "real \<Rightarrow> real \<Rightarrow> real \<Rightarrow> real \<Rightarrow> real \<Rightarrow> EdgeSpec \<Rightarrow> cmd list" where
  "hEdgeAbs tab startX endX y normalY spec =
     (let dir = edgeDir startX endX;
          L = \<bar>endX - startX\<bar>;
          xAt = (\<lambda>u. startX + dir * u)
      in if sign spec = 0 \<or> L \<le> 0.0001 then [LineTo endX y]
         else
           let skew = edgeSkew dir spec;
               centerU = L * (0.5 + clamp skew (- 1) 1 * 0.06);
               widthU = clamp (L * 0.42 * widthF spec) (L * 0.34) (L * 0.50);
               neckU = clamp (widthU * 0.34 * neckF spec) (widthU * 0.26) (widthU * 0.42);
               amp = clamp (tab * 0.92) (tab * 0.78) (tab * 1.05);
               disp = normalY * of_int (sign spec) * amp;
               shoulder = disp * 0.18;
               aU = clamp (centerU - widthU / 2) (L * 0.14) (L * 0.86);
               dU = clamp (centerU + widthU / 2) (L * 0.14) (L * 0.86);
               bU = centerU - neckU / 2;
               cU = centerU + neckU / 2
           in [LineTo (xAt (L * EDGE_A)) y,
               LineTo (xAt aU) y,
               BezierCurveTo (xAt (aU + widthU * 0.10)) y (xAt (bU - widthU * 0.10)) y
                             (xAt bU) (y + shoulder),
               BezierCurveTo (xAt (bU + neckU * 0.06)) (y + shoulder)
                             (xAt (centerU - neckU * 0.62)) (y + disp * 0.92)
                             (xAt centerU) (y + disp),
               BezierCurveTo (xAt (centerU + neckU * 0.62)) (y + disp * 0.92)
                             (xAt (cU - neckU * 0.06)) (y + shoulder)
                             (xAt cU) (y + shoulder),
               BezierCurveTo (xAt (cU + widthU * 0.10)) y (xAt (dU - widthU * 0.10)) y
                             (xAt dU) y,
               LineTo (xAt (L * EDGE_B)) y,
               LineTo endX y])"

definition vEdgeAbs :: "real \<Rightarrow> real \<Rightarrow> real \<Rightarrow> real \<Rightarrow> real \<Rightarrow> EdgeSpec \<Rightarrow> cmd list" where
  "vEdgeAbs tab x startY endY normalX spec =
     (let dir = edgeDir startY endY;
          L = \<bar>endY - startY\<bar>;
          yAt = (\<lambda>u. startY + dir * u)
      in if sign spec = 0 \<or> L \<le> 0.0001 then [LineTo x endY]
         else
           let skew = edgeSkew dir spec;
               centerU = L * (0.5 + clamp skew (- 1) 1 * 0.06);
               widthU = clamp (L * 0.42 * widthF spec) (L * 0.34) (L * 0.50);
               neckU = clamp (widthU * 0.34 * neckF spec) (widthU * 0.26) (widthU * 0.42);
               amp = clamp (tab * 0.92) (tab * 0.78) (tab * 1.05);
               disp = normalX * of_int (sign spec) * amp;
               shoulder = disp * 0.18;
               aU = clamp (centerU - widthU / 2) (L * 0.14) (L * 0.86);
               dU = clamp (centerU + widthU / 2) (L * 0.14) (L * 0.86);
               bU = centerU - neckU / 2;
               cU = centerU + neckU / 2
           in [LineTo x (yAt (L * EDGE_A)),
               LineTo x (yAt aU),
               BezierCurveTo x (yAt (aU + widthU * 0.10)) x (yAt (bU - widthU * 0.10))
                             (x + shoulder) (yAt bU),
               BezierCurveTo (x + shoulder) (yAt (bU + neckU * 0.06))
                             (x + disp * 0.92) (yAt (centerU - neckU * 0.62))
                             (x + disp) (yAt centerU),
               BezierCurveTo (x + disp * 0.92) (yAt (centerU + neckU * 0.62))
                             (x + shoulder) (yAt (cU - neckU * 0.06))
                             (x + shoulder) (yAt cU),
               BezierCurveTo x (yAt (cU + widthU * 0.10)) x (yAt (dU - widthU * 0.10))
                             x (yAt dU),
               LineTo x (yAt (L * EDGE_B)),
               LineTo x endY])"

text \<open>
  The closed path of one piece: top left to right (outward is \<open>-Y\<close>), right top to
  bottom (\<open>+X\<close>), bottom right to left (\<open>+Y\<close>), left bottom to top (\<open>-X\<close>).
\<close>

definition buildJigsawPath :: "real \<Rightarrow> real \<Rightarrow> real \<Rightarrow> PieceEdges \<Rightarrow> cmd list" where
  "buildJigsawPath tw th tab e =
     [MoveTo 0 0]
     @ hEdgeAbs tab 0 tw 0 (- 1) (e_top e)
     @ vEdgeAbs tab tw 0 th 1 (e_right e)
     @ hEdgeAbs tab tw 0 th 1 (e_bottom e)
     @ vEdgeAbs tab 0 th 0 (- 1) (e_left e)
     @ [ClosePath]"

text \<open>
  What a list of drawing calls traces from a current point: straight segments and cubic
  curves, each with its start point. Reversing a segment gives the same set of points.
\<close>

type_synonym point = "real \<times> real"

datatype seg = Line point point | Cubic point point point point

fun trace :: "point \<Rightarrow> cmd list \<Rightarrow> seg list" where
  "trace p [] = []"
| "trace p (MoveTo x y # cs) = trace (x, y) cs"
| "trace p (LineTo x y # cs) = Line p (x, y) # trace (x, y) cs"
| "trace p (BezierCurveTo x1 y1 x2 y2 x y # cs) =
     Cubic p (x1, y1) (x2, y2) (x, y) # trace (x, y) cs"
| "trace p (ClosePath # cs) = trace p cs"

fun rev_seg :: "seg \<Rightarrow> seg" where
  "rev_seg (Line p q) = Line q p"
| "rev_seg (Cubic p c1 c2 q) = Cubic q c2 c1 p"

definition shift :: "real \<Rightarrow> real \<Rightarrow> point \<Rightarrow> point" where
  "shift dx dy p = (fst p + dx, snd p + dy)"

fun shift_seg :: "real \<Rightarrow> real \<Rightarrow> seg \<Rightarrow> seg" where
  "shift_seg dx dy (Line p q) = Line (shift dx dy p) (shift dx dy q)"
| "shift_seg dx dy (Cubic p c1 c2 q) =
     Cubic (shift dx dy p) (shift dx dy c1) (shift dx dy c2) (shift dx dy q)"

text \<open>The point a drawing call ends at.\<close>

fun endpoint :: "cmd \<Rightarrow> point option" where
  "endpoint (MoveTo x y) = Some (x, y)"
| "endpoint (LineTo x y) = Some (x, y)"
| "endpoint (BezierCurveTo x1 y1 x2 y2 x y) = Some (x, y)"
| "endpoint ClosePath = None"

section \<open>Doubles under \<open>Math.floor\<close>\<close>

text \<open>
  A JavaScript number is an IEEE double, and every product and quotient is rounded to
  the nearest double, ties to the even significand. Under \<open>Math.floor\<close> that rounding
  decides the result: \<open>825 * (900 / 1650)\<close> is \<open>449.99999999999994\<close>, whose floor is
  449, not 450. \<open>rd\<close> is this rounding for values in the normal range (53 significant
  bits, no overflow, no subnormals); \<open>pow2\<close> is the power of two of an integer
  exponent.
\<close>

definition pow2 :: "int \<Rightarrow> real" where
  "pow2 e = (if 0 \<le> e then 2 ^ nat e else 1 / 2 ^ nat (- e))"

definition round_even :: "real \<Rightarrow> int" where
  "round_even q =
     (let f = \<lfloor>q\<rfloor>; r = q - of_int f
      in if r < 1 / 2 then f else if 1 / 2 < r then f + 1 else if even f then f else f + 1)"

definition rd :: "real \<Rightarrow> real" where
  "rd x =
     (if x = 0 then 0
      else let e = \<lfloor>log 2 \<bar>x\<bar>\<rfloor> - 52
           in of_int (round_even (x / pow2 e)) * pow2 e)"


section \<open>Piece generation (\<open>generatePieces\<close>)\<close>

text \<open>
  The image enters as its pixel size \<open>naturalW \<times> naturalH\<close>. The divisions are the
  source's as long as the image size is positive and the grid has at least one row and
  one column, which is the case whenever a piece is generated. The three values the
  source takes a \<open>Math.floor\<close> of (\<open>outTileW\<close>, \<open>outTileH\<close> and \<open>pad\<close>) are computed
  in doubles, each operation rounded by \<open>rd\<close>; the literal \<open>0.18\<close> is the double
  \<open>rd 0.18\<close>. The source rectangle of the clipped draw, which is only compared and
  clamped, is kept in exact reals (\<open>gp_tileW\<close>, \<open>gp_tileH\<close>, \<open>gp_scale\<close>).
\<close>

definition maxBoardPx :: real where
  "maxBoardPx = 900"




text \<open>
  \<open>Math.floor(tileW * scale)\<close> with \<open>tileW = naturalW / grid.cols\<close> and
  \<open>scale = Math.min(1, maxBoardPx / Math.max(naturalW, naturalH))\<close>, in doubles.
\<close>

definition floorScaled :: "real \<Rightarrow> int \<Rightarrow> real \<Rightarrow> int" where
  "floorScaled side n longer = \<lfloor>rd (rd (side / real_of_int n) * min 1 (rd (maxBoardPx / longer)))\<rfloor>"

definition gp_outTileW :: "real \<Rightarrow> real \<Rightarrow> Grid \<Rightarrow> int" where
  "gp_outTileW naturalW naturalH g =
     max 10 (floorScaled naturalW (cols g) (max naturalW naturalH))"

definition gp_outTileH :: "real \<Rightarrow> real \<Rightarrow> Grid \<Rightarrow> int" where
  "gp_outTileH naturalW naturalH g =
     max 10 (floorScaled naturalH (rows g) (max naturalW naturalH))"

definition gp_pad :: "real \<Rightarrow> real \<Rightarrow> Grid \<Rightarrow> int" where
  "gp_pad naturalW naturalH g =
     max 6 \<lfloor>rd (real_of_int (min (gp_outTileW naturalW naturalH g) (gp_outTileH naturalW naturalH g))
                * rd 0.18)\<rfloor>"

definition gp_outW :: "real \<Rightarrow> real \<Rightarrow> Grid \<Rightarrow> int" where
  "gp_outW naturalW naturalH g = gp_outTileW naturalW naturalH g + gp_pad naturalW naturalH g * 2"

definition gp_outH :: "real \<Rightarrow> real \<Rightarrow> Grid \<Rightarrow> int" where
  "gp_outH naturalW naturalH g = gp_outTileH naturalW naturalH g + gp_pad naturalW naturalH g * 2"





datatype PieceRotation = R0 | R90 | R180 | R270

text \<open>
  A piece without its image data (\<open>imgUrl\<close>, \<open>rectUrl\<close>). \<open>p_id\<close> is the field \<open>id\<close>.
\<close>

record Piece =
  p_id :: nat
  row :: nat
  col :: nat
  outW :: int
  outH :: int
  tileW :: int
  tileH :: int
  pad :: int
  rotation :: PieceRotation
  placed :: bool

text \<open>
  \<open>randomRotation90\<close>: \<open>vals[Math.floor(Math.random() * vals.length)]\<close>, with the draw
  \<open>u\<close>; \<open>Math.random()\<close> returns a value in \<open>[0, 1)\<close>, so the index is below 4.
\<close>

definition randomRotation90 :: "real \<Rightarrow> PieceRotation" where
  "randomRotation90 u = [R0, R90, R180, R270] ! nat \<lfloor>u * 4\<rfloor>"

text \<open>
  The options of \<open>generatePieces\<close>. The callers in \<open>App.tsx\<close> pass a \<open>seed\<close>; the
  parameter type of \<open>generatePieces\<close> declares only \<open>randomRotation\<close> and \<open>onProgress\<close>,
  and its body reads only those.
\<close>

record Opts =
  randomRotation :: bool
  seed :: "nat option"

definition newPiece :: "real \<Rightarrow> real \<Rightarrow> Grid \<Rightarrow> nat \<Rightarrow> nat \<Rightarrow> PieceRotation \<Rightarrow> Piece" where
  "newPiece naturalW naturalH g r c rot =
     \<lparr>p_id = r * nat (cols g) + c, row = r, col = c,
      outW = gp_outW naturalW naturalH g, outH = gp_outH naturalW naturalH g,
      tileW = gp_outTileW naturalW naturalH g, tileH = gp_outTileH naturalW naturalH g,
      pad = gp_pad naturalW naturalH g, rotation = rot, placed = False\<rparr>"

text \<open>The cells in the order of the two nested loops over \<open>r\<close> and \<open>c\<close>.\<close>

definition gridCells :: "Grid \<Rightarrow> (nat \<times> nat) list" where
  "gridCells g = concat (map (\<lambda>r. map (\<lambda>c. (r, c)) [0..<nat (cols g)]) [0..<nat (rows g)])"

fun piecesFor ::
  "real \<Rightarrow> real \<Rightarrow> Grid \<Rightarrow> bool \<Rightarrow> random \<Rightarrow> (nat \<times> nat) list \<Rightarrow> nat \<Rightarrow> Piece list \<times> nat" where
  "piecesFor naturalW naturalH g rr rnd [] k = ([], k)"
| "piecesFor naturalW naturalH g rr rnd ((r, c) # cells) k =
     (let (rot, k1) = (if rr then (randomRotation90 (rnd k), k + 1) else (R0, k));
          (ps, k2) = piecesFor naturalW naturalH g rr rnd cells k1
      in (newPiece naturalW naturalH g r c rot # ps, k2))"

text \<open>
  \<open>generatePieces(image, grid, opts)\<close>: the edges are drawn first
  (\<open>const edges = buildEdges(grid)\<close>), then the pieces row by row. The result carries the
  number of draws made, for the shuffle that follows in the caller.
\<close>

definition generatePieces_edges :: "Grid \<Rightarrow> Opts \<Rightarrow> random \<Rightarrow> Edges" where
  "generatePieces_edges g opts rnd = fst (buildEdges g rnd 0)"

definition generatePieces :: "real \<Rightarrow> real \<Rightarrow> Grid \<Rightarrow> Opts \<Rightarrow> random \<Rightarrow> Piece list \<times> nat" where
  "generatePieces naturalW naturalH g opts rnd =
     (let (edges, k0) = buildEdges g rnd 0
      in piecesFor naturalW naturalH g (randomRotation opts) rnd (gridCells g) k0)"

text \<open>
  \<open>shuffleInPlace\<close>: for \<open>i\<close> from \<open>length - 1\<close> down to 1, swap \<open>arr[i]\<close> with
  \<open>arr[j]\<close>, \<open>j = Math.floor(Math.random() * (i + 1))\<close>.
\<close>

fun shuffle_loop :: "nat \<Rightarrow> 'a list \<Rightarrow> random \<Rightarrow> nat \<Rightarrow> 'a list \<times> nat" where
  "shuffle_loop 0 arr rnd k = (arr, k)"
| "shuffle_loop (Suc i) arr rnd k =
     (let j = nat \<lfloor>rnd k * real (Suc i + 1)\<rfloor>
      in shuffle_loop i (arr[Suc i := arr ! j, j := arr ! Suc i]) rnd (k + 1))"

definition shuffleInPlace :: "'a list \<Rightarrow> random \<Rightarrow> nat \<Rightarrow> 'a list \<times> nat" where
  "shuffleInPlace arr rnd k = shuffle_loop (length arr - 1) arr rnd k"


section \<open>The session (\<open>App.tsx\<close>)\<close>

text \<open>
  The React state the session functions read and write. \<open>placements[i]\<close> is \<open>None\<close> for
  \<open>null\<close>. Each function below is one event handler; its state updates are applied in
  the order they are queued.
\<close>

record Session =
  grid :: "Grid option"
  piecesById :: "Piece list"
  trayOrder :: "nat list"
  placements :: "nat option list"
  selectedPieceId :: "nat option"
  rotationEnabled :: bool

datatype flash = Good | Bad | Warn

fun rotate90 :: "PieceRotation \<Rightarrow> PieceRotation" where
  "rotate90 R0 = R90"
| "rotate90 R90 = R180"
| "rotate90 R180 = R270"
| "rotate90 R270 = R0"

text \<open>A read \<open>arr[i]\<close>; \<open>None\<close> for \<open>undefined\<close>.\<close>

definition js_nth :: "'a list \<Rightarrow> nat \<Rightarrow> 'a option" where
  "js_nth xs i = (if i < length xs then Some (xs ! i) else None)"

text \<open>
  A read \<open>placements[i]\<close>: an index past the end gives \<open>undefined\<close>, which \<open>== null\<close>
  treats as \<open>null\<close> and \<open>=== id\<close> as different from every id.
\<close>

definition cellAt :: "nat option list \<Rightarrow> nat \<Rightarrow> nat option" where
  "cellAt ps i = (if i < length ps then ps ! i else None)"

text \<open>A write \<open>out[i] = v\<close>: past the end, JavaScript extends the array with holes.\<close>

definition js_set :: "'a option list \<Rightarrow> nat \<Rightarrow> 'a option \<Rightarrow> 'a option list" where
  "js_set xs i v =
     (if i < length xs then xs[i := v] else xs @ replicate (i - length xs) None @ [v])"

text \<open>\<open>findIndex\<close>; \<open>None\<close> for \<open>-1\<close>.\<close>

fun findIndex :: "('a \<Rightarrow> bool) \<Rightarrow> 'a list \<Rightarrow> nat option" where
  "findIndex P [] = None"
| "findIndex P (x # xs) = (if P x then Some 0 else map_option Suc (findIndex P xs))"

definition isPieceCorrect :: "Piece \<Rightarrow> nat option list \<Rightarrow> bool \<Rightarrow> bool" where
  "isPieceCorrect piece pls rotEnabled =
     (let onCorrectCell = (cellAt pls (p_id piece) = Some (p_id piece));
          rotationOk = (\<not> rotEnabled \<or> rotation piece = R0)
      in placed piece \<and> onCorrectCell \<and> rotationOk)"

definition setPieceRotation :: "nat \<Rightarrow> PieceRotation \<Rightarrow> Session \<Rightarrow> Session" where
  "setPieceRotation pieceId next1 s =
     (case js_nth (piecesById s) pieceId of
        None \<Rightarrow> s
      | Some p \<Rightarrow> s\<lparr>piecesById := (piecesById s)[pieceId := p\<lparr>rotation := next1\<rparr>]\<rparr>)"

definition rotatePiece90 :: "nat \<Rightarrow> Session \<Rightarrow> Session" where
  "rotatePiece90 pieceId s =
     (case js_nth (piecesById s) pieceId of
        None \<Rightarrow> s
      | Some p \<Rightarrow> setPieceRotation pieceId (rotate90 (rotation p)) s)"

definition unplacePiece :: "nat \<Rightarrow> Session \<Rightarrow> Session" where
  "unplacePiece pieceId s =
     s\<lparr>piecesById :=
         (case js_nth (piecesById s) pieceId of
            None \<Rightarrow> piecesById s
          | Some p \<Rightarrow> if \<not> placed p then piecesById s
                      else (piecesById s)[pieceId := p\<lparr>placed := False\<rparr>]),
       placements :=
         (case findIndex (\<lambda>x. x = Some pieceId) (placements s) of
            None \<Rightarrow> placements s
          | Some idx \<Rightarrow> (placements s)[idx := None]),
       trayOrder :=
         (if pieceId \<in> set (trayOrder s) then trayOrder s else pieceId # trayOrder s)\<rparr>"

definition solvePuzzle :: "Session \<Rightarrow> Session \<times> flash option" where
  "solvePuzzle s =
     (case grid s of
        None \<Rightarrow> (s, None)
      | Some g \<Rightarrow>
          (s\<lparr>piecesById := map (\<lambda>p. p\<lparr>rotation := R0, placed := True\<rparr>) (piecesById s),
             placements := map Some [0..<nat (count g)],
             trayOrder := [],
             selectedPieceId := None\<rparr>, Some Good))"

text \<open>\<open>removeFromArray\<close> deletes the first occurrence: \<open>remove1\<close>.\<close>

definition placePiece :: "nat \<Rightarrow> nat \<Rightarrow> Session \<Rightarrow> Session" where
  "placePiece pieceId cellIndex s =
     s\<lparr>piecesById :=
         (case js_nth (piecesById s) pieceId of
            None \<Rightarrow> piecesById s
          | Some p \<Rightarrow> (piecesById s)[pieceId := p\<lparr>placed := True\<rparr>]),
       placements := js_set (placements s) cellIndex (Some pieceId),
       trayOrder := remove1 pieceId (trayOrder s)\<rparr>"

text \<open>
  \<open>tryPlaceSelectedAtCell\<close> (the current \<open>App.tsx\<close>). The second component is the
  feedback passed to \<open>flash\<close>; \<open>None\<close> when the function returns before any feedback.
\<close>

definition tryPlaceSelectedAtCell :: "nat \<Rightarrow> Session \<Rightarrow> Session \<times> flash option" where
  "tryPlaceSelectedAtCell cellIdx s =
     (case grid s of
        None \<Rightarrow> (s, None)
      | Some g \<Rightarrow>
        (case selectedPieceId s of
           None \<Rightarrow> (s, None)
         | Some sel \<Rightarrow>
           (case js_nth (piecesById s) sel of
              None \<Rightarrow> (s, None)
            | Some piece \<Rightarrow>
                let isCorrectCell = (p_id piece = cellIdx);
                    isSameAlreadyThere = (cellAt (placements s) cellIdx = Some (p_id piece));
                    cellEmpty = (cellAt (placements s) cellIdx = None);
                    rotationOk = (\<not> rotationEnabled s \<or> rotation piece = R0)
                in if isCorrectCell \<and> (cellEmpty \<or> isSameAlreadyThere)
                   then
                     let s1 = (if \<not> isSameAlreadyThere then placePiece (p_id piece) cellIdx s
                               else s)
                     in if rotationEnabled s \<and> \<not> rotationOk then (s1, Some Warn)
                        else (s1\<lparr>selectedPieceId := None\<rparr>, Some Good)
                   else (s, Some Bad))))"

text \<open>
  Switching rotation off runs the effect that sets every rotation to 0.
\<close>

definition setRotationEnabled :: "bool \<Rightarrow> Session \<Rightarrow> Session" where
  "setRotationEnabled b s =
     (let s1 = s\<lparr>rotationEnabled := b\<rparr>
      in if b then s1
         else s1\<lparr>piecesById := map (\<lambda>p. if rotation p = R0 then p else p\<lparr>rotation := R0\<rparr>)
                                  (piecesById s1)\<rparr>)"

text \<open>
  The actions of a session. \<open>Select\<close> and \<open>Deselect\<close> are \<open>setSelectedPieceId\<close> with an
  id or with \<open>null\<close>; the interface calls them under further conditions (a locked piece
  cannot be selected), so the states reached here include all those of the interface.
  \<open>Shuffle\<close> carries the values \<open>Math.random()\<close> returns during the shuffle.
\<close>

datatype action =
    Select nat
  | Deselect
  | Rotate nat
  | AttemptPlace nat
  | Unplace nat
  | SolveAll
  | Shuffle random
  | SetRotation bool

fun step :: "Session \<Rightarrow> action \<Rightarrow> Session" where
  "step s (Select pieceId) = s\<lparr>selectedPieceId := Some pieceId\<rparr>"
| "step s Deselect = s\<lparr>selectedPieceId := None\<rparr>"
| "step s (Rotate pieceId) = rotatePiece90 pieceId s"
| "step s (AttemptPlace cellIdx) = fst (tryPlaceSelectedAtCell cellIdx s)"
| "step s (Unplace pieceId) = unplacePiece pieceId s"
| "step s SolveAll = fst (solvePuzzle s)"
| "step s (Shuffle rnd) = s\<lparr>trayOrder := fst (shuffleInPlace (trayOrder s) rnd 0)\<rparr>"
| "step s (SetRotation b) = setRotationEnabled b s"

text \<open>\<open>Math.random()\<close> returns values in \<open>[0, 1)\<close>.\<close>

definition unit_draws :: "random \<Rightarrow> bool" where
  "unit_draws rnd = (\<forall>k. 0 \<le> rnd k \<and> rnd k < 1)"

fun valid_action :: "action \<Rightarrow> bool" where
  "valid_action (Shuffle rnd) = unit_draws rnd"
| "valid_action a = True"

fun run :: "Session \<Rightarrow> action list \<Rightarrow> Session" where
  "run s [] = s"
| "run s (a # as) = run (step s a) as"

text \<open>
  The state \<open>loadPuzzleFromModal\<close> installs once generation has finished: the pieces
  sorted by id, the tray a shuffle of their ids, an empty board of \<open>count\<close> cells
  (\<open>Array(count)\<close> raises on a negative count; the model then has no cell). The draws of
  the shuffle follow those of the generation in the same stream.
\<close>

definition startSession :: "real \<Rightarrow> real \<Rightarrow> Grid \<Rightarrow> bool \<Rightarrow> nat option \<Rightarrow> random \<Rightarrow> Session" where
  "startSession naturalW naturalH g rotEnabled sd rnd =
     (let (generated, k) =
            generatePieces naturalW naturalH g \<lparr>randomRotation = rotEnabled, seed = sd\<rparr> rnd;
          byId = sort_key p_id generated;
          (order, k1) = shuffleInPlace (map p_id byId) rnd k
      in \<lparr>grid = Some g, piecesById = byId, trayOrder = order,
          placements = replicate (nat (count g)) None,
          selectedPieceId = None, rotationEnabled = rotEnabled\<rparr>)"

text \<open>
  The two invariants of the session state: every occupied cell holds its own piece, and
  every piece id below the piece count is exactly once in the tray or on the board.
\<close>

definition piece_count :: "Session \<Rightarrow> nat" where
  "piece_count s = (case grid s of None \<Rightarrow> 0 | Some g \<Rightarrow> nat (count g))"

definition own_list :: "nat option list \<Rightarrow> bool" where
  "own_list xs = list_all (\<lambda>(i, x). x = None \<or> x = Some i) (enumerate 0 xs)"

definition own_cells :: "Session \<Rightarrow> bool" where
  "own_cells s = own_list (placements s)"

definition partition_inv :: "Session \<Rightarrow> bool" where
  "partition_inv s =
     list_all (\<lambda>i. count_list (trayOrder s) i + count_list (placements s) (Some i) = 1)
       [0..<piece_count s]"

text \<open>
  What the transitions keep together, for \<open>n\<close> pieces: a grid of that count, a board of
  \<open>n\<close> cells, piece ids below \<open>n\<close>, and the two invariants.
\<close>

definition session_inv :: "nat \<Rightarrow> Session \<Rightarrow> bool" where
  "session_inv n s =
     (piece_count s = n \<and> grid s \<noteq> None \<and> length (placements s) = n
      \<and> (\<forall>p \<in> set (piecesById s). p_id p < n)
      \<and> own_list (placements s)
      \<and> (\<forall>i < n. count_list (trayOrder s) i + count_list (placements s) (Some i) = 1))"

text \<open>A small state for concrete runs: one row of two pieces, piece 1 selected.\<close>

definition example_piece :: "nat \<Rightarrow> PieceRotation \<Rightarrow> bool \<Rightarrow> Piece" where
  "example_piece i rot pl =
     \<lparr>p_id = i, row = 0, col = i, outW = 22, outH = 22, tileW = 10, tileH = 10, pad = 6,
      rotation = rot, placed = pl\<rparr>"

definition example_session :: Session where
  "example_session =
     \<lparr>grid = Some \<lparr>rows = 1, cols = 2, count = 2\<rparr>,
      piecesById = [example_piece 0 R0 False, example_piece 1 R90 False],
      trayOrder = [1, 0],
      placements = [None, None],
      selectedPieceId = Some 1,
      rotationEnabled = True\<rparr>"

section \<open>Properties of the grid solver\<close>

lemma divisors_loop_pred:
  assumes "\<forall>d \<in> set out. d \<noteq> 0 \<and> d dvd n \<and> 1 \<le> d"
  shows "\<forall>d \<in> set (divisors_loop n i out). d \<noteq> 0 \<and> d dvd n \<and> 1 \<le> d"
  using assms
proof (induction n i out rule: divisors_loop.induct)
  case (1 n i out)
  show ?case
  proof (cases "int i * int i \<le> n")
    case False
    then have "divisors_loop n i out = out"
      by (subst divisors_loop.simps) simp
    then show ?thesis using "1.prems" by simp
  next
    case True
    let ?out' = "(if i \<noteq> 0 \<and> n mod int i = 0
              then (if int i \<noteq> n div int i then out @ [int i, n div int i] else out @ [int i])
              else out)"
    have new: "\<forall>d \<in> set ?out'. d \<noteq> 0 \<and> d dvd n \<and> 1 \<le> d"
    proof (cases "i \<noteq> 0 \<and> n mod int i = 0")
      case False
      then show ?thesis using "1.prems" by auto
    next
      case dv: True
      then have ipos: "1 \<le> int i" and idvd: "int i dvd n" by auto
      from True ipos have npos: "1 \<le> n"
        by (smt (verit) mult_le_0_iff)
      from idvd obtain k where k: "n = int i * k" by (auto simp: dvd_def)
      with npos ipos have kpos: "1 \<le> k"
        by (smt (verit) mult_le_0_iff zero_less_mult_iff)
      from k ipos have "n div int i = k" by simp
      with kpos k have "n div int i \<noteq> 0 \<and> n div int i dvd n \<and> 1 \<le> n div int i" by simp
      with ipos idvd dv show ?thesis using "1.prems" by auto
    qed
    have unroll: "divisors_loop n i out = divisors_loop n (Suc i) ?out'"
      using True by (subst divisors_loop.simps) simp
    show ?thesis
      unfolding unroll by (rule "1.IH" [OF True new])
  qed
qed

lemma divisors_pred:
  "d \<in> set (divisors n) \<Longrightarrow> d \<noteq> 0 \<and> d dvd n \<and> 1 \<le> d"
  using divisors_loop_pred [of "[]" n 1] by (simp add: divisors_def)


lemma foldl_best_prod:
  assumes "\<forall>d \<in> set ds. d \<noteq> 0 \<and> d dvd n" and "b_rows b * b_cols b = n"
  shows "b_rows (foldl (best_step n A) b ds) * b_cols (foldl (best_step n A) b ds) = n"
  using assms
proof (induction ds arbitrary: b)
  case Nil
  then show ?case by simp
next
  case (Cons d ds)
  from Cons.prems have "b_rows (best_step n A b d) * b_cols (best_step n A b d) = n"
    by (auto simp: best_step_def Let_def)
  with Cons show ?case by simp
qed

lemma foldl_best_pos:
  assumes "\<forall>d \<in> set ds. d dvd n \<and> 1 \<le> d" and "1 \<le> n"
    and "1 \<le> b_rows b \<and> 1 \<le> b_cols b"
  shows "1 \<le> b_rows (foldl (best_step n A) b ds) \<and> 1 \<le> b_cols (foldl (best_step n A) b ds)"
  using assms
proof (induction ds arbitrary: b)
  case Nil
  then show ?case by simp
next
  case (Cons d ds)
  from Cons.prems have d: "d dvd n" "1 \<le> d" by auto
  then obtain k where k: "n = d * k" by (auto simp: dvd_def)
  with d \<open>1 \<le> n\<close> have "1 \<le> k"
    by (smt (verit) mult_le_0_iff)
  with k d have "1 \<le> n div d" by simp
  with Cons.prems d have "1 \<le> b_rows (best_step n A b d) \<and> 1 \<le> b_cols (best_step n A b d)"
    by (auto simp: best_step_def Let_def)
  with Cons show ?case by simp
qed

lemma findBestGrid_prod:
  "rows (findBestGrid n A) * cols (findBestGrid n A) = n \<and> count (findBestGrid n A) = n"
proof -
  have "\<forall>d \<in> set (divisors n). d \<noteq> 0 \<and> d dvd n"
    using divisors_pred by blast
  from foldl_best_prod [OF this, of "\<lparr>b_rows = 1, b_cols = n, b_score = PInf\<rparr>" A]
  show ?thesis
    by (simp add: findBestGrid_def Let_def mult.commute)
qed

lemma findBestGrid_pos:
  assumes "1 \<le> n"
  shows "1 \<le> rows (findBestGrid n A) \<and> 1 \<le> cols (findBestGrid n A)"
proof -
  have "\<forall>d \<in> set (divisors n). d dvd n \<and> 1 \<le> d"
    using divisors_pred by blast
  from foldl_best_pos [OF this assms, of "\<lparr>b_rows = 1, b_cols = n, b_score = PInf\<rparr>" A] assms
  show ?thesis
    by (simp add: findBestGrid_def Let_def)
qed

lemma divisors_50: "divisors 50 = [1, 2, 5, 10, 25, 50]"
  by code_simp

lemma findBestGrid_50_2: "findBestGrid 50 (Fin 2) = \<lparr>rows = 5, cols = 10, count = 50\<rparr>"
  unfolding findBestGrid_def divisors_50
  by (simp add: best_step_def score_of_def js_gt_def Let_def abs_if)

text \<open>
  Claim C5. For every integer \<open>N \<ge> 1\<close> and every real aspect \<open>A > 0\<close>, \<open>findBestGrid\<close>
  returns a grid with \<open>rows * cols = N\<close>, \<open>rows \<ge> 1\<close>, \<open>cols \<ge> 1\<close> and \<open>count = N\<close>; and
  \<open>findBestGrid(50, 2.0)\<close> is 5 rows by 10 columns.
\<close>

theorem findBestGrid_exact:
  assumes "1 \<le> N" and "0 < A"
  shows "rows (findBestGrid N (Fin A)) * cols (findBestGrid N (Fin A)) = N
       \<and> 1 \<le> rows (findBestGrid N (Fin A))
       \<and> 1 \<le> cols (findBestGrid N (Fin A))
       \<and> count (findBestGrid N (Fin A)) = N
       \<and> findBestGrid 50 (Fin 2) = \<lparr>rows = 5, cols = 10, count = 50\<rparr>"
  using findBestGrid_prod [of N "Fin A"] findBestGrid_pos [OF assms(1), of "Fin A"]
    findBestGrid_50_2 by simp

theorem findBestGrid_exact_witness:
  "(1::int) \<le> 50 \<and> (0::real) < 2
   \<and> rows (findBestGrid 50 (Fin 2)) * cols (findBestGrid 50 (Fin 2)) = 50
   \<and> 1 \<le> rows (findBestGrid 50 (Fin 2))
   \<and> 1 \<le> cols (findBestGrid 50 (Fin 2))
   \<and> count (findBestGrid 50 (Fin 2)) = 50
   \<and> findBestGrid 50 (Fin 2) = \<lparr>rows = 5, cols = 10, count = 50\<rparr>"
  using findBestGrid_exact [of 50 2] by simp

section \<open>Properties of the traced tab\<close>

lemma clamp_id: "lo \<le> n \<Longrightarrow> n \<le> hi \<Longrightarrow> clamp n lo hi = n"
  by (simp add: clamp_def)

lemma clamp_bounds: "lo \<le> hi \<Longrightarrow> lo \<le> clamp n lo hi \<and> clamp n lo hi \<le> hi"
  by (simp add: clamp_def)

lemma tab_center_bounds:
  assumes "0 \<le> L"
  shows "L * 0.44 \<le> L * (0.5 + clamp s (- 1) 1 * 0.06)
       \<and> L * (0.5 + clamp s (- 1) 1 * 0.06) \<le> L * 0.56"
proof -
  have t: "- 1 \<le> clamp s (- 1) 1 \<and> clamp s (- 1) 1 \<le> 1"
    using clamp_bounds [of "- 1" 1 s] by simp
  have "L * clamp s (- 1) 1 \<le> L * 1"
    using assms t by (intro mult_left_mono) simp_all
  moreover have "L * (- 1) \<le> L * clamp s (- 1) 1"
    using assms t by (intro mult_left_mono) simp_all
  ultimately show ?thesis
    by (simp add: algebra_simps)
qed

lemma tab_base_inside:
  assumes "0 \<le> L"
  shows "clamp (L * (0.5 + clamp s (- 1) 1 * 0.06) - clamp (L * 0.42 * f) (L * 0.34) (L * 0.50) / 2)
               (L * 0.14) (L * 0.86)
         = L * (0.5 + clamp s (- 1) 1 * 0.06) - clamp (L * 0.42 * f) (L * 0.34) (L * 0.50) / 2"
    and "clamp (L * (0.5 + clamp s (- 1) 1 * 0.06) + clamp (L * 0.42 * f) (L * 0.34) (L * 0.50) / 2)
               (L * 0.14) (L * 0.86)
         = L * (0.5 + clamp s (- 1) 1 * 0.06) + clamp (L * 0.42 * f) (L * 0.34) (L * 0.50) / 2"
proof -
  let ?c = "L * (0.5 + clamp s (- 1) 1 * 0.06)"
  let ?w = "clamp (L * 0.42 * f) (L * 0.34) (L * 0.50)"
  have c: "L * 0.44 \<le> ?c \<and> ?c \<le> L * 0.56"
    by (rule tab_center_bounds [OF assms])
  have "L * 0.34 \<le> L * 0.50" using assms by simp
  from clamp_bounds [OF this] have w: "L * 0.34 \<le> ?w \<and> ?w \<le> L * 0.50" .
  show "clamp (?c - ?w / 2) (L * 0.14) (L * 0.86) = ?c - ?w / 2"
    by (rule clamp_id) (use c w assms in linarith)+
  show "clamp (?c + ?w / 2) (L * 0.14) (L * 0.86) = ?c + ?w / 2"
    by (rule clamp_id) (use c w assms in linarith)+
qed

lemma amp_eq: "0 < tab \<Longrightarrow> clamp (tab * 0.92) (tab * 0.78) (tab * 1.05) = tab * 0.92"
  by (rule clamp_id) simp_all

lemma swap34: "0.34 * (L::real) = L * 0.34" "0.50 * L = L * 0.50" "0.26 * L = L * 0.26"
  "0.42 * L = L * 0.42" "0.78 * L = L * 0.78" "1.05 * L = L * 1.05"
  by simp_all

text \<open>
  Claim C7. A non-flat edge (sign not 0, length \<open>L\<close> above the degenerate-length guard
  \<open>0.0001\<close>) with depth budget \<open>tab > 0\<close> is traced through these points: the tab centre at
  \<open>L * (0.5 + clamp(skew, -1, 1) * 0.06)\<close>, the head of width
  \<open>clamp(L * 0.42 * widthF, 0.34 L, 0.50 L)\<close> around the centre, the neck of width
  \<open>clamp(headWidth * 0.34 * neckF, 0.26 headWidth, 0.42 headWidth)\<close> around the centre, and
  the tip displaced by \<open>normal * sign * amp\<close> with
  \<open>amp = clamp(tab * 0.92, 0.78 tab, 1.05 tab)\<close>. The clamp of the head's two base points
  to \<open>[0.14 L, 0.86 L]\<close> is never active, so the traced head has exactly that width. The
  same holds for \<open>hEdgeAbs\<close> and \<open>vEdgeAbs\<close>.
\<close>

theorem tab_geometry:
  assumes "sign spec \<noteq> 0" and "0.0001 < \<bar>e - s\<bar>" and "0 < tab"
  shows
    "let L = \<bar>e - s\<bar>;
         dir = edgeDir s e;
         pos = (\<lambda>u. s + dir * u);
         center = L * (0.5 + clamp (edgeSkew dir spec) (- 1) 1 * 0.06);
         headWidth = clamp (L * 0.42 * widthF spec) (0.34 * L) (0.50 * L);
         neckWidth = clamp (headWidth * 0.34 * neckF spec) (0.26 * headWidth) (0.42 * headWidth);
         amp = clamp (tab * 0.92) (0.78 * tab) (1.05 * tab);
         d = n * of_int (sign spec) * amp
     in map endpoint (hEdgeAbs tab s e y n spec) =
          map Some [(pos (0.28 * L), y), (pos (center - headWidth / 2), y),
                    (pos (center - neckWidth / 2), y + 0.18 * d), (pos center, y + d),
                    (pos (center + neckWidth / 2), y + 0.18 * d),
                    (pos (center + headWidth / 2), y), (pos (0.72 * L), y), (e, y)]
      \<and> map endpoint (vEdgeAbs tab y s e n spec) =
          map Some [(y, pos (0.28 * L)), (y, pos (center - headWidth / 2)),
                    (y + 0.18 * d, pos (center - neckWidth / 2)), (y + d, pos center),
                    (y + 0.18 * d, pos (center + neckWidth / 2)),
                    (y, pos (center + headWidth / 2)), (y, pos (0.72 * L)), (y, e)]
      \<and> amp = 0.92 * tab"
proof -
  have L0: "0 \<le> \<bar>e - s\<bar>" by simp
  note base = tab_base_inside [OF L0]
  have nonflat: "\<not> (sign spec = 0 \<or> \<bar>e - s\<bar> \<le> 0.0001)"
    using assms by simp
  have amp: "clamp (tab * 0.92) (tab * 0.78) (tab * 1.05) = 0.92 * tab"
    using amp_eq [OF assms(3)] by simp
  show ?thesis
    unfolding hEdgeAbs_def vEdgeAbs_def Let_def base swap34 if_not_P [OF nonflat]
      EDGE_A_def EDGE_B_def list.map endpoint.simps
    using amp by (simp add: mult.commute)
qed


theorem tab_geometry_witness:
  "sign \<lparr>sign = 1, widthF = 1, neckF = 1, skewF = 1/2\<rparr> \<noteq> 0
   \<and> (0.0001::real) < \<bar>100 - 0\<bar> \<and> (0::real) < 20
   \<and> map endpoint (hEdgeAbs 20 0 100 0 (- 1) \<lparr>sign = 1, widthF = 1, neckF = 1, skewF = 1/2\<rparr>) =
        map Some [(28, 0), (32, 0), (45.86, - 3.312), (53, - 18.4), (60.14, - 3.312),
                  (74, 0), (72, 0), (100, 0)]"
proof -
  let ?spec = "\<lparr>sign = 1, widthF = 1, neckF = 1, skewF = 1/2\<rparr>"
  have h1: "sign ?spec \<noteq> 0" by simp
  have h2: "(0.0001::real) < \<bar>100 - 0\<bar>" by simp
  have h3: "(0::real) < 20" by simp
  note t = tab_geometry [OF h1 h2 h3, where y = 0 and n = "- 1", unfolded Let_def, THEN conjunct1]
  have "map endpoint (hEdgeAbs 20 0 100 0 (- 1) ?spec) =
        map Some [(28, 0), (32, 0), (45.86, - 3.312), (53, - 18.4), (60.14, - 3.312),
                  (74, 0), (72, 0), (100, 0)]"
    unfolding t by (simp add: edgeDir_def edgeSkew_def clamp_def)
  with h1 h2 h3 show ?thesis by blast
qed

section \<open>Properties of the shared edges\<close>

lemma clamp_neg: "clamp (- s) (- 1) 1 = - clamp s (- 1) 1"
  by (simp add: clamp_def min_def max_def)

lemma hEdge_mirror:
  assumes "0 < tw"
  shows "map (shift_seg 0 th) (trace (0, 0) (hEdgeAbs tab 0 tw 0 (- 1) (spec\<lparr>sign := - sign spec\<rparr>)))
       = rev (map rev_seg (trace (tw, th) (hEdgeAbs tab tw 0 th 1 spec)))"
proof (cases "sign spec = 0 \<or> tw \<le> 0.0001")
  case True
  then show ?thesis
    using assms by (auto simp: hEdgeAbs_def Let_def shift_def)
next
  case False
  have L0: "0 \<le> tw" using assms by simp
  note base = tab_base_inside [OF L0]
  have abs1: "\<bar>tw - 0\<bar> = tw" "\<bar>0 - tw\<bar> = tw" using assms by simp_all
  have dir1: "edgeDir 0 tw = 1" "edgeDir tw 0 = - 1"
    using assms by (simp_all add: edgeDir_def)
  have nonflat: "\<not> (sign spec = 0 \<or> tw \<le> 0.0001)"
     "\<not> (sign (spec\<lparr>sign := - sign spec\<rparr>) = 0 \<or> tw \<le> 0.0001)"
    using False by simp_all
  have sk: "edgeSkew 1 (spec\<lparr>sign := - sign spec\<rparr>) = skewF spec"
     "edgeSkew (- 1) spec = - skewF spec"
    by (simp_all add: edgeSkew_def)
  show ?thesis
    unfolding hEdgeAbs_def Let_def abs1 dir1 sk clamp_neg base if_not_P [OF nonflat(1)]
      if_not_P [OF nonflat(2)] EDGE_A_def EDGE_B_def
    by (simp add: shift_def algebra_simps)
qed


lemma vEdge_mirror:
  assumes "0 < th"
  shows "map (shift_seg tw 0) (trace (0, th) (vEdgeAbs tab 0 th 0 (- 1) (spec\<lparr>sign := - sign spec\<rparr>)))
       = rev (map rev_seg (trace (tw, 0) (vEdgeAbs tab tw 0 th 1 spec)))"
proof (cases "sign spec = 0 \<or> th \<le> 0.0001")
  case True
  then show ?thesis
    using assms by (auto simp: vEdgeAbs_def Let_def shift_def)
next
  case False
  have L0: "0 \<le> th" using assms by simp
  note base = tab_base_inside [OF L0]
  have abs1: "\<bar>th - 0\<bar> = th" "\<bar>0 - th\<bar> = th" using assms by simp_all
  have dir1: "edgeDir 0 th = 1" "edgeDir th 0 = - 1"
    using assms by (simp_all add: edgeDir_def)
  have nonflat: "\<not> (sign spec = 0 \<or> th \<le> 0.0001)"
     "\<not> (sign (spec\<lparr>sign := - sign spec\<rparr>) = 0 \<or> th \<le> 0.0001)"
    using False by simp_all
  have sk: "edgeSkew (- 1) (spec\<lparr>sign := - sign spec\<rparr>) = - skewF spec"
     "edgeSkew 1 spec = skewF spec"
    by (simp_all add: edgeSkew_def)
  show ?thesis
    unfolding vEdgeAbs_def Let_def abs1 dir1 sk clamp_neg base if_not_P [OF nonflat(1)]
      if_not_P [OF nonflat(2)] EDGE_A_def EDGE_B_def
    by (simp add: shift_def algebra_simps)
qed

lemma nat_max0: "nat (max 0 x) = nat x"
  by (simp add: max_def)

lemma edgeRow_length_aux: "edgeRow rnd n k = (es, k') \<Longrightarrow> length es = n"
  by (induction n arbitrary: k es k') (auto simp: Let_def split: prod.splits)

lemma edgeRow_length: "length (fst (edgeRow rnd n k)) = n"
  using edgeRow_length_aux [of rnd n k] by (cases "edgeRow rnd n k") simp

lemma edgeRows_shape:
  "length (fst (edgeRows rnd m n k)) = m
   \<and> (\<forall>i < m. length (fst (edgeRows rnd m n k) ! i) = n)"
proof (induction m arbitrary: k)
  case 0
  then show ?case by simp
next
  case (Suc m)
  obtain row1 k1 where r: "edgeRow rnd n k = (row1, k1)" by (cases "edgeRow rnd n k")
  obtain rest k2 where s: "edgeRows rnd m n k1 = (rest, k2)" by (cases "edgeRows rnd m n k1")
  from r have l1: "length row1 = n" using edgeRow_length [of rnd n k] by simp
  from s Suc.IH [of k1] have l2: "length rest = m \<and> (\<forall>i < m. length (rest ! i) = n)" by simp
  have "fst (edgeRows rnd (Suc m) n k) = row1 # rest"
    using r s by simp
  with l1 l2 show ?case
    by (auto simp: nth_Cons split: nat.splits)
qed

lemma buildEdges_shape:
  assumes "edges = fst (buildEdges g rnd k)"
  shows "length (vEdges edges) = nat (rows g)"
    and "i < nat (rows g) \<Longrightarrow> length (vEdges edges ! i) = nat (cols g - 1)"
    and "length (hEdges edges) = nat (rows g - 1)"
    and "i < nat (rows g - 1) \<Longrightarrow> length (hEdges edges ! i) = nat (cols g)"
proof -
  let ?n1 = "nat (cols g - 1)"
  let ?m2 = "nat (rows g - 1)"
  obtain v k1 where v: "edgeRows rnd (nat (rows g)) ?n1 k = (v, k1)"
    by (cases "edgeRows rnd (nat (rows g)) ?n1 k")
  obtain h k2 where h: "edgeRows rnd ?m2 (nat (cols g)) k1 = (h, k2)"
    by (cases "edgeRows rnd ?m2 (nat (cols g)) k1")
  have e: "vEdges edges = v" "hEdges edges = h"
    using assms v h by (simp_all add: buildEdges_def nat_max0)
  have sv: "length v = nat (rows g) \<and> (\<forall>i < nat (rows g). length (v ! i) = ?n1)"
    using edgeRows_shape [of rnd "nat (rows g)" ?n1 k] unfolding v by simp
  have sh: "length h = ?m2 \<and> (\<forall>i < ?m2. length (h ! i) = nat (cols g))"
    using edgeRows_shape [of rnd ?m2 "nat (cols g)" k1] unfolding h by simp
  show "length (vEdges edges) = nat (rows g)" using e sv by simp
  show "i < nat (rows g) \<Longrightarrow> length (vEdges edges ! i) = nat (cols g - 1)"
    using e sv by simp
  show "length (hEdges edges) = nat (rows g - 1)" using e sh by simp
  show "i < nat (rows g - 1) \<Longrightarrow> length (hEdges edges ! i) = nat (cols g)"
    using e sh by simp
qed

lemma edgeAt_built:
  assumes "edges = fst (buildEdges g rnd k)"
  shows "int r + 1 < rows g \<Longrightarrow> int c < cols g \<Longrightarrow>
           edgeAt (hEdges edges) r c = Some (hEdges edges ! r ! c)"
    and "int r < rows g \<Longrightarrow> int c + 1 < cols g \<Longrightarrow>
           edgeAt (vEdges edges) r c = Some (vEdges edges ! r ! c)"
proof -
  note sh = buildEdges_shape [OF assms]
  show "edgeAt (hEdges edges) r c = Some (hEdges edges ! r ! c)"
    if "int r + 1 < rows g" and "int c < cols g"
  proof -
    from that have "r < nat (rows g - 1)" and "c < nat (cols g)" by linarith+
    with sh(3) sh(4) [of r] show ?thesis by (simp add: edgeAt_def)
  qed
  show "edgeAt (vEdges edges) r c = Some (vEdges edges ! r ! c)"
    if "int r < rows g" and "int c + 1 < cols g"
  proof -
    from that have "r < nat (rows g)" and "c < nat (cols g - 1)" by linarith+
    with sh(1) sh(2) [of r] show ?thesis by (simp add: edgeAt_def)
  qed
qed

lemma pieceEdges_built:
  assumes "edges = fst (buildEdges g rnd k)" and "int r < rows g" and "int c < cols g"
  shows "pieceEdges g edges r c =
     Some \<lparr>e_top = (if r = 0 then flat else (hEdges edges ! (r - 1) ! c)\<lparr>sign := - sign (hEdges edges ! (r - 1) ! c)\<rparr>),
           e_right = (if int c = cols g - 1 then flat else vEdges edges ! r ! c),
           e_bottom = (if int r = rows g - 1 then flat else hEdges edges ! r ! c),
           e_left = (if c = 0 then flat else (vEdges edges ! r ! (c - 1))\<lparr>sign := - sign (vEdges edges ! r ! (c - 1))\<rparr>)\<rparr>"
proof -
  note at = edgeAt_built [OF assms(1)]
  have t: "r \<noteq> 0 \<Longrightarrow> edgeAt (hEdges edges) (r - 1) c = Some (hEdges edges ! (r - 1) ! c)"
    using at(1) [of "r - 1" c] assms by simp
  have b: "int r \<noteq> rows g - 1 \<Longrightarrow> edgeAt (hEdges edges) r c = Some (hEdges edges ! r ! c)"
    using at(1) [of r c] assms by simp
  have l: "c \<noteq> 0 \<Longrightarrow> edgeAt (vEdges edges) r (c - 1) = Some (vEdges edges ! r ! (c - 1))"
    using at(2) [of r "c - 1"] assms by simp
  have rt: "int c \<noteq> cols g - 1 \<Longrightarrow> edgeAt (vEdges edges) r c = Some (vEdges edges ! r ! c)"
    using at(2) [of r c] assms by simp
  have top: "(if r = 0 then Some flat
              else map_option (\<lambda>e. e\<lparr>sign := - sign e\<rparr>) (edgeAt (hEdges edges) (r - 1) c))
             = Some (if r = 0 then flat
                     else (hEdges edges ! (r - 1) ! c)\<lparr>sign := - sign (hEdges edges ! (r - 1) ! c)\<rparr>)"
    using t by simp
  have bottom: "(if int r = rows g - 1 then Some flat else edgeAt (hEdges edges) r c)
             = Some (if int r = rows g - 1 then flat else hEdges edges ! r ! c)"
    using b by simp
  have left: "(if c = 0 then Some flat
               else map_option (\<lambda>e. e\<lparr>sign := - sign e\<rparr>) (edgeAt (vEdges edges) r (c - 1)))
             = Some (if c = 0 then flat
                     else (vEdges edges ! r ! (c - 1))\<lparr>sign := - sign (vEdges edges ! r ! (c - 1))\<rparr>)"
    using l by simp
  have right: "(if int c = cols g - 1 then Some flat else edgeAt (vEdges edges) r c)
             = Some (if int c = cols g - 1 then flat else vEdges edges ! r ! c)"
    using rt by simp
  show ?thesis
    unfolding pieceEdges_def Let_def top bottom left right by simp
qed


text \<open>
  Claim C1. For every interior boundary of a grid whose edges come from \<open>buildEdges\<close>,
  the two adjoining pieces resolve complementary edges: the signs are exact negations,
  \<open>widthF\<close> and \<open>neckF\<close> are identical, the skews used after the direction-dependent
  mirror of \<open>hEdgeAbs\<close> and \<open>vEdgeAbs\<close> are exact negations, and the curve the lower
  (right) piece traces along its top (left) side, moved into the coordinates of the upper
  (left) piece, is the curve that piece traces along its bottom (right) side, run
  backwards.
\<close>

theorem interior_edges_complementary:
  assumes "edges = fst (buildEdges g rnd k)"
    and "int r < rows g" and "int c < cols g" and "0 < tw" and "0 < th"
  shows "(int r + 1 < rows g \<longrightarrow>
           (\<exists>a b. pieceEdges g edges r c = Some a \<and> pieceEdges g edges (r + 1) c = Some b
              \<and> sign (e_top b) = - sign (e_bottom a)
              \<and> widthF (e_top b) = widthF (e_bottom a)
              \<and> neckF (e_top b) = neckF (e_bottom a)
              \<and> edgeSkew (edgeDir 0 tw) (e_top b) = - edgeSkew (edgeDir tw 0) (e_bottom a)
              \<and> map (shift_seg 0 th) (trace (0, 0) (hEdgeAbs tab 0 tw 0 (- 1) (e_top b)))
                  = rev (map rev_seg (trace (tw, th) (hEdgeAbs tab tw 0 th 1 (e_bottom a))))))
       \<and> (int c + 1 < cols g \<longrightarrow>
           (\<exists>a b. pieceEdges g edges r c = Some a \<and> pieceEdges g edges r (c + 1) = Some b
              \<and> sign (e_left b) = - sign (e_right a)
              \<and> widthF (e_left b) = widthF (e_right a)
              \<and> neckF (e_left b) = neckF (e_right a)
              \<and> edgeSkew (edgeDir th 0) (e_left b) = - edgeSkew (edgeDir 0 th) (e_right a)
              \<and> map (shift_seg tw 0) (trace (0, th) (vEdgeAbs tab 0 th 0 (- 1) (e_left b)))
                  = rev (map rev_seg (trace (tw, 0) (vEdgeAbs tab tw 0 th 1 (e_right a))))))"
proof (intro conjI impI)
  assume below: "int r + 1 < rows g"
  let ?s = "hEdges edges ! r ! c"
  from below have r1: "int (r + 1) < rows g" by simp
  note a = pieceEdges_built [OF assms(1) assms(2) assms(3)]
  note b = pieceEdges_built [OF assms(1) r1 assms(3)]
  from below have ba: "e_bottom (the (pieceEdges g edges r c)) = ?s"
    unfolding a by simp
  have tb: "e_top (the (pieceEdges g edges (r + 1) c)) = ?s\<lparr>sign := - sign ?s\<rparr>"
    unfolding b by simp
  have dirs: "edgeDir 0 tw = 1" "edgeDir tw 0 = - 1"
    using assms(4) by (simp_all add: edgeDir_def)
  have "sign (?s\<lparr>sign := - sign ?s\<rparr>) = - sign ?s
      \<and> widthF (?s\<lparr>sign := - sign ?s\<rparr>) = widthF ?s
      \<and> neckF (?s\<lparr>sign := - sign ?s\<rparr>) = neckF ?s
      \<and> edgeSkew (edgeDir 0 tw) (?s\<lparr>sign := - sign ?s\<rparr>) = - edgeSkew (edgeDir tw 0) ?s
      \<and> map (shift_seg 0 th) (trace (0, 0) (hEdgeAbs tab 0 tw 0 (- 1) (?s\<lparr>sign := - sign ?s\<rparr>)))
          = rev (map rev_seg (trace (tw, th) (hEdgeAbs tab tw 0 th 1 ?s)))"
    using hEdge_mirror [OF assms(4), of th tab ?s] by (simp add: dirs edgeSkew_def)
  then show "\<exists>a b. pieceEdges g edges r c = Some a \<and> pieceEdges g edges (r + 1) c = Some b
              \<and> sign (e_top b) = - sign (e_bottom a)
              \<and> widthF (e_top b) = widthF (e_bottom a)
              \<and> neckF (e_top b) = neckF (e_bottom a)
              \<and> edgeSkew (edgeDir 0 tw) (e_top b) = - edgeSkew (edgeDir tw 0) (e_bottom a)
              \<and> map (shift_seg 0 th) (trace (0, 0) (hEdgeAbs tab 0 tw 0 (- 1) (e_top b)))
                  = rev (map rev_seg (trace (tw, th) (hEdgeAbs tab tw 0 th 1 (e_bottom a))))"
    using a b ba tb by (metis option.sel)
next
  assume beside: "int c + 1 < cols g"
  let ?s = "vEdges edges ! r ! c"
  from beside have c1: "int (c + 1) < cols g" by simp
  note a = pieceEdges_built [OF assms(1) assms(2) assms(3)]
  note b = pieceEdges_built [OF assms(1) assms(2) c1]
  from beside have ra: "e_right (the (pieceEdges g edges r c)) = ?s"
    unfolding a by simp
  have lb: "e_left (the (pieceEdges g edges r (c + 1))) = ?s\<lparr>sign := - sign ?s\<rparr>"
    unfolding b by simp
  have dirs: "edgeDir 0 th = 1" "edgeDir th 0 = - 1"
    using assms(5) by (simp_all add: edgeDir_def)
  have "sign (?s\<lparr>sign := - sign ?s\<rparr>) = - sign ?s
      \<and> widthF (?s\<lparr>sign := - sign ?s\<rparr>) = widthF ?s
      \<and> neckF (?s\<lparr>sign := - sign ?s\<rparr>) = neckF ?s
      \<and> edgeSkew (edgeDir th 0) (?s\<lparr>sign := - sign ?s\<rparr>) = - edgeSkew (edgeDir 0 th) ?s
      \<and> map (shift_seg tw 0) (trace (0, th) (vEdgeAbs tab 0 th 0 (- 1) (?s\<lparr>sign := - sign ?s\<rparr>)))
          = rev (map rev_seg (trace (tw, 0) (vEdgeAbs tab tw 0 th 1 ?s)))"
    using vEdge_mirror [OF assms(5), of tw tab ?s] by (simp add: dirs edgeSkew_def)
  then show "\<exists>a b. pieceEdges g edges r c = Some a \<and> pieceEdges g edges r (c + 1) = Some b
              \<and> sign (e_left b) = - sign (e_right a)
              \<and> widthF (e_left b) = widthF (e_right a)
              \<and> neckF (e_left b) = neckF (e_right a)
              \<and> edgeSkew (edgeDir th 0) (e_left b) = - edgeSkew (edgeDir 0 th) (e_right a)
              \<and> map (shift_seg tw 0) (trace (0, th) (vEdgeAbs tab 0 th 0 (- 1) (e_left b)))
                  = rev (map rev_seg (trace (tw, 0) (vEdgeAbs tab tw 0 th 1 (e_right a))))"
    using a b ra lb by (metis option.sel)
qed


theorem interior_edges_complementary_witness:
  "int 0 < rows \<lparr>rows = 2, cols = 2, count = 4\<rparr> \<and> int 0 < cols \<lparr>rows = 2, cols = 2, count = 4\<rparr>
   \<and> (0::real) < 100 \<and> (0::real) < 80
   \<and> int 0 + 1 < rows \<lparr>rows = 2, cols = 2, count = 4\<rparr>
   \<and> (\<exists>a b. pieceEdges \<lparr>rows = 2, cols = 2, count = 4\<rparr>
                (fst (buildEdges \<lparr>rows = 2, cols = 2, count = 4\<rparr> (\<lambda>i. 1 / 4) 0)) 0 0 = Some a
           \<and> pieceEdges \<lparr>rows = 2, cols = 2, count = 4\<rparr>
                (fst (buildEdges \<lparr>rows = 2, cols = 2, count = 4\<rparr> (\<lambda>i. 1 / 4) 0)) (0 + 1) 0 = Some b
           \<and> sign (e_top b) = - sign (e_bottom a)
           \<and> widthF (e_top b) = widthF (e_bottom a)
           \<and> neckF (e_top b) = neckF (e_bottom a)
           \<and> edgeSkew (edgeDir 0 100) (e_top b) = - edgeSkew (edgeDir 100 0) (e_bottom a)
           \<and> map (shift_seg 0 80) (trace (0, 0) (hEdgeAbs 18 0 100 0 (- 1) (e_top b)))
               = rev (map rev_seg (trace (100, 80) (hEdgeAbs 18 100 0 80 1 (e_bottom a)))))"
proof -
  let ?g = "\<lparr>rows = 2, cols = 2, count = 4\<rparr>"
  have h2: "int 0 < rows ?g" and h3: "int 0 < cols ?g" by simp_all
  have h4: "(0::real) < 100" and h5: "(0::real) < 80" by simp_all
  have h6: "int 0 + 1 < rows ?g" by simp
  from interior_edges_complementary [OF refl h2 h3 h4 h5, of "\<lambda>i. 1 / 4" 0 18]
  show ?thesis using h2 h3 h4 h5 h6 by blast
qed

section \<open>Properties of the double rounding\<close>

lemma pow2_powr: "pow2 e = 2 powr of_int e"
  by (simp add: pow2_def powr_int)

lemma pow2_pos: "0 < pow2 e"
  by (simp add: pow2_powr)

lemma pow2_nonpos: "e \<le> 0 \<Longrightarrow> pow2 e = 1 / 2 ^ nat (- e)"
  by (cases "e = 0") (simp_all add: pow2_def)

lemma round_even_bounds:
  "q - 1 / 2 \<le> of_int (round_even q) \<and> of_int (round_even q) \<le> q + 1 / 2"
proof -
  have f: "of_int \<lfloor>q\<rfloor> \<le> q" "q < of_int \<lfloor>q\<rfloor> + 1" by linarith+
  consider "q - of_int \<lfloor>q\<rfloor> < 1 / 2" | "1 / 2 < q - of_int \<lfloor>q\<rfloor>" | "q - of_int \<lfloor>q\<rfloor> = 1 / 2"
    by linarith
  then show ?thesis
  proof cases
    case 1
    then have eq: "round_even q = \<lfloor>q\<rfloor>" by (simp add: round_even_def Let_def)
    show ?thesis unfolding eq using 1 f by linarith
  next
    case 2
    then have eq: "round_even q = \<lfloor>q\<rfloor> + 1" by (simp add: round_even_def Let_def)
    show ?thesis unfolding eq of_int_add of_int_1 using 2 f by linarith
  next
    case 3
    then have "round_even q = \<lfloor>q\<rfloor> \<or> round_even q = \<lfloor>q\<rfloor> + 1"
      by (simp add: round_even_def Let_def)
    then show ?thesis
    proof
      assume eq: "round_even q = \<lfloor>q\<rfloor>"
      show ?thesis unfolding eq using 3 f by linarith
    next
      assume eq: "round_even q = \<lfloor>q\<rfloor> + 1"
      show ?thesis unfolding eq of_int_add of_int_1 using 3 f by linarith
    qed
  qed
qed

lemma round_even_of_int: "round_even (of_int k) = k"
  by (simp add: round_even_def)

lemma floor_log2:
  assumes "0 < x" and "pow2 e \<le> x" and "x < pow2 (e + 1)"
  shows "\<lfloor>log 2 x\<rfloor> = e"
proof -
  have "of_int e \<le> log 2 x"
    using assms(1,2) by (simp add: le_log_iff pow2_powr)
  moreover have "log 2 x < of_int e + 1"
    using assms(1,3) by (simp add: log_less_iff pow2_powr add.commute)
  ultimately show ?thesis by (simp add: floor_eq_iff)
qed

text \<open>The rounding of a positive value with a known binary exponent.\<close>

lemma rd_eval:
  assumes "0 < x" and "pow2 e \<le> x" and "x < pow2 (e + 1)"
  shows "rd x = of_int (round_even (x / pow2 (e - 52))) * pow2 (e - 52)"
  using assms floor_log2 [OF assms] by (simp add: rd_def Let_def)

lemma rd_scaled:
  assumes "0 < x"
  shows "2 ^ 52 \<le> x / pow2 (\<lfloor>log 2 \<bar>x\<bar>\<rfloor> - 52)"
proof -
  let ?f = "\<lfloor>log 2 \<bar>x\<bar>\<rfloor>"
  let ?A = "2 powr of_int ?f :: real"
  have A: "0 < ?A" by simp
  have "?A \<le> 2 powr log 2 x"
    using assms by (intro powr_mono) simp_all
  then have "?A \<le> x" using assms by simp
  then have one: "1 \<le> x / ?A" using A by (simp add: pos_le_divide_eq)
  have P: "pow2 (?f - 52) = ?A / 2 ^ 52"
    by (simp add: pow2_powr powr_diff)
  have "x / pow2 (?f - 52) = x / ?A * 2 ^ 52"
    unfolding P by (simp only: divide_divide_eq_right times_divide_eq_left)
  also have "\<dots> \<ge> 1 * 2 ^ 52"
    using one by (intro mult_right_mono) simp_all
  finally show ?thesis by simp
qed

lemma rd_pos:
  assumes "0 < x"
  shows "0 < rd x"
proof -
  let ?P = "pow2 (\<lfloor>log 2 \<bar>x\<bar>\<rfloor> - 52)"
  let ?q = "x / ?P"
  have "(1::real) \<le> 2 ^ 52" by simp
  with rd_scaled [OF assms] have "1 \<le> ?q" by linarith
  with round_even_bounds [of ?q] have "0 < (of_int (round_even ?q) :: real)" by linarith
  then have "0 < of_int (round_even ?q) * ?P" using pow2_pos by (rule mult_pos_pos)
  then show ?thesis using assms by (simp add: rd_def Let_def)
qed

text \<open>The relative error of one rounding is at most \<open>2^-53\<close>.\<close>

lemma rd_upper:
  assumes "0 < x"
  shows "rd x \<le> x * (1 + 1 / 2 ^ 53)"
proof -
  let ?P = "pow2 (\<lfloor>log 2 \<bar>x\<bar>\<rfloor> - 52)"
  let ?q = "x / ?P"
  have P: "0 < ?P" by (rule pow2_pos)
  from rd_scaled [OF assms] have q: "2 ^ 52 \<le> ?q" .
  then have "1 / 2 \<le> ?q * (1 / 2 ^ 53)" by simp
  with round_even_bounds [of ?q] have "of_int (round_even ?q) \<le> ?q * (1 + 1 / 2 ^ 53)"
    by (simp add: algebra_simps)
  then have "of_int (round_even ?q) * ?P \<le> ?q * (1 + 1 / 2 ^ 53) * ?P"
    using P by (intro mult_right_mono) simp_all
  also have "\<dots> = x * (1 + 1 / 2 ^ 53)" using P by simp
  finally show ?thesis using assms by (simp add: rd_def Let_def)
qed

text \<open>Integers below \<open>2^53\<close> are doubles.\<close>

lemma rd_of_int:
  assumes "\<bar>n\<bar> < 2 ^ 53"
  shows "rd (of_int n) = of_int n"
proof (cases "n = 0")
  case True
  then show ?thesis by (simp add: rd_def)
next
  case False
  let ?x = "of_int n :: real"
  let ?e = "\<lfloor>log 2 \<bar>?x\<bar>\<rfloor> - 52"
  have pos: "0 < \<bar>?x\<bar>" using False by simp
  have "\<bar>?x\<bar> < 2 ^ 53"
    using assms by (metis of_int_abs of_int_less_numeral_power_cancel_iff)
  then have "log 2 \<bar>?x\<bar> < 53"
    using pos by (simp add: log_less_iff)
  then have e: "?e \<le> 0" by linarith
  let ?m = "nat (- ?e)"
  have q: "?x / pow2 ?e = of_int (n * 2 ^ ?m)"
    by (simp add: pow2_nonpos [OF e])
  have "rd ?x = of_int (round_even (?x / pow2 ?e)) * pow2 ?e"
    using False by (simp add: rd_def Let_def)
  also have "\<dots> = of_int (n * 2 ^ ?m) * pow2 ?e"
    unfolding q round_even_of_int ..
  also have "\<dots> = ?x"
    by (simp add: pow2_nonpos [OF e])
  finally show ?thesis .
qed

lemma rd_numeral: "rd 50 = 50" "rd 100 = 100" "rd 9 = 9" "rd 90 = 90"
  "rd 825 = 825" "rd 1650 = 1650"
  using rd_of_int [of 50] rd_of_int [of 100] rd_of_int [of 9] rd_of_int [of 90]
    rd_of_int [of 825] rd_of_int [of 1650]
  by simp_all

lemma rd_018: "rd 0.18 = 6485183463413514 / 2 ^ 55"
  using rd_eval [of "0.18" "- 3"] by (simp add: round_even_def pow2_def)

lemma rd_pad50: "\<lfloor>rd (50 * rd 0.18)\<rfloor> = 9"
proof -
  have val: "rd (50 * (6485183463413514 / 2 ^ 55)) = 9"
    using rd_eval [of "50 * (6485183463413514 / 2 ^ 55)" 3]
    by (simp add: round_even_def pow2_def)
  show ?thesis unfolding rd_018 val by simp
qed

lemma rd_pad449: "\<lfloor>rd (449 * rd 0.18)\<rfloor> = 80"
proof -
  have val: "rd (449 * (6485183463413514 / 2 ^ 55)) = 5687201904438804 / 2 ^ 46"
    using rd_eval [of "449 * (6485183463413514 / 2 ^ 55)" 6]
    by (simp add: round_even_def pow2_def)
  show ?thesis unfolding rd_018 val by simp
qed

lemma rd_611: "rd (900 / 1650) = 4913017775313268 / 2 ^ 53"
  using rd_eval [of "900 / 1650" "- 1"] by (simp add: round_even_def pow2_def)

lemma rd_449: "\<lfloor>rd (825 * rd (900 / 1650))\<rfloor> = 449"
proof -
  have val: "rd (825 * (4913017775313268 / 2 ^ 53)) = 7916483719987199 / 2 ^ 44"
    using rd_eval [of "825 * (4913017775313268 / 2 ^ 53)" 8]
    by (simp add: round_even_def pow2_def)
  show ?thesis unfolding rd_611 val by simp
qed

lemma rd_899: "\<lfloor>rd (1650 * rd (900 / 1650))\<rfloor> = 899"
proof -
  have val: "rd (1650 * (4913017775313268 / 2 ^ 53)) = 7916483719987199 / 2 ^ 43"
    using rd_eval [of "1650 * (4913017775313268 / 2 ^ 53)" 9]
    by (simp add: round_even_def pow2_def)
  show ?thesis unfolding rd_611 val by simp
qed

lemma rd_tenth: "rd (1 / 10) = 7205759403792794 / 2 ^ 56"
  using rd_eval [of "1 / 10" "- 4"] by (simp add: round_even_def pow2_def)

lemma rd_9: "\<lfloor>rd (90 * rd (900 / 9000))\<rfloor> = 9"
proof -
  have eq: "(900::real) / 9000 = 1 / 10" by simp
  have val: "rd (90 * (7205759403792794 / 2 ^ 56)) = 9"
    using rd_eval [of "90 * (7205759403792794 / 2 ^ 56)" 3]
    by (simp add: round_even_def pow2_def)
  show ?thesis unfolding eq rd_tenth val by simp
qed

text \<open>The layout of a 100 by 100 image cut into one row of two pieces.\<close>

lemma layout_100:
  "gp_outTileW 100 100 \<lparr>rows = 1, cols = 2, count = 2\<rparr> = 50"
  "gp_outTileH 100 100 \<lparr>rows = 1, cols = 2, count = 2\<rparr> = 100"
  "gp_pad 100 100 \<lparr>rows = 1, cols = 2, count = 2\<rparr> = 9"
  "gp_outW 100 100 \<lparr>rows = 1, cols = 2, count = 2\<rparr> = 68"
  "gp_outH 100 100 \<lparr>rows = 1, cols = 2, count = 2\<rparr> = 118"
proof -
  let ?g = "\<lparr>rows = 1, cols = 2, count = 2\<rparr>"
  show w: "gp_outTileW 100 100 ?g = 50"
    by (simp add: gp_outTileW_def floorScaled_def maxBoardPx_def rd_numeral)
  show h: "gp_outTileH 100 100 ?g = 100"
    by (simp add: gp_outTileH_def floorScaled_def maxBoardPx_def rd_numeral)
  show p: "gp_pad 100 100 ?g = 9"
    unfolding gp_pad_def w h using rd_pad50 by simp
  show "gp_outW 100 100 ?g = 68"
    unfolding gp_outW_def w p by simp
  show "gp_outH 100 100 ?g = 118"
    unfolding gp_outH_def h p by simp
qed

text \<open>
  The layout of a 1650 by 1650 image cut into one row of two pieces. The scale
  \<open>900 / 1650\<close> rounds down, and so do both products: the tile is 449 by 899 where
  exact arithmetic gives 450 by 900.
\<close>

lemma layout_1650:
  "gp_outTileW 1650 1650 \<lparr>rows = 1, cols = 2, count = 2\<rparr> = 449"
  "gp_outTileH 1650 1650 \<lparr>rows = 1, cols = 2, count = 2\<rparr> = 899"
  "gp_pad 1650 1650 \<lparr>rows = 1, cols = 2, count = 2\<rparr> = 80"
  "gp_outW 1650 1650 \<lparr>rows = 1, cols = 2, count = 2\<rparr> = 609"
  "gp_outH 1650 1650 \<lparr>rows = 1, cols = 2, count = 2\<rparr> = 1059"
proof -
  let ?g = "\<lparr>rows = 1, cols = 2, count = 2\<rparr>"
  have s: "rd (900 / 1650) < 1" unfolding rd_611 by simp
  have fw: "floorScaled 1650 2 1650 = 449"
    using rd_449 s by (simp add: floorScaled_def maxBoardPx_def rd_numeral min_def)
  have fh: "floorScaled 1650 1 1650 = 899"
    using rd_899 s by (simp add: floorScaled_def maxBoardPx_def rd_numeral min_def)
  show w: "gp_outTileW 1650 1650 ?g = 449"
    by (simp add: gp_outTileW_def fw)
  show h: "gp_outTileH 1650 1650 ?g = 899"
    by (simp add: gp_outTileH_def fh)
  show p: "gp_pad 1650 1650 ?g = 80"
    unfolding gp_pad_def w h using rd_pad449 by simp
  show "gp_outW 1650 1650 ?g = 609"
    unfolding gp_outW_def w p by simp
  show "gp_outH 1650 1650 ?g = 1059"
    unfolding gp_outH_def h p by simp
qed

lemma outTileW_9000: "gp_outTileW 9000 900 \<lparr>rows = 10, cols = 100, count = 1000\<rparr> = 10"
proof -
  have s: "rd (900 / 9000) < 1"
  proof -
    have eq: "(900::real) / 9000 = 1 / 10" by simp
    show ?thesis unfolding eq rd_tenth by simp
  qed
  have "floorScaled 9000 100 9000 = 9"
    using rd_9 s by (simp add: floorScaled_def maxBoardPx_def rd_numeral min_def)
  then show ?thesis by (simp add: gp_outTileW_def)
qed


lemma rd_2021: "rd (900 / 945) = 8578285004515230 / 2 ^ 53"
  using rd_eval [of "900 / 945" "- 1"] by (simp add: round_even_def pow2_def)

lemma rd_378: "rd (945 / 25) = 5319877059831398 / 2 ^ 47"
  using rd_eval [of "945 / 25" 5] by (simp add: round_even_def pow2_def)

lemma rd_294: "rd (588 / 20) = 8275364315293286 / 2 ^ 48"
  using rd_eval [of "588 / 20" 4] by (simp add: round_even_def pow2_def)

lemma rd_35: "\<lfloor>rd (rd (945 / 25) * rd (900 / 945))\<rfloor> = 35"
proof -
  have val: "rd (5319877059831398 / 2 ^ 47 * (8578285004515230 / 2 ^ 53))
      = 5066549580791807 / 2 ^ 47"
    using rd_eval [of "5319877059831398 / 2 ^ 47 * (8578285004515230 / 2 ^ 53)" 5]
    by (simp add: round_even_def pow2_def)
  show ?thesis unfolding rd_378 rd_2021 val by simp
qed

lemma rd_27: "\<lfloor>rd (rd (588 / 20) * rd (900 / 945))\<rfloor> = 27"
proof -
  have val: "rd (8275364315293286 / 2 ^ 48 * (8578285004515230 / 2 ^ 53))
      = 7881299347898367 / 2 ^ 48"
    using rd_eval [of "8275364315293286 / 2 ^ 48 * (8578285004515230 / 2 ^ 53)" 4]
    by (simp add: round_even_def pow2_def)
  show ?thesis unfolding rd_294 rd_2021 val by simp
qed

lemma rd_pad27: "\<lfloor>rd (27 * rd 0.18)\<rfloor> = 4"
proof -
  have val: "rd (27 * (6485183463413514 / 2 ^ 55)) = 5471873547255152 / 2 ^ 50"
    using rd_eval [of "27 * (6485183463413514 / 2 ^ 55)" 2]
    by (simp add: round_even_def pow2_def)
  show ?thesis unfolding rd_018 val by simp
qed

text \<open>
  The layout of a 945 by 588 image cut into 20 rows of 25 pieces: the exact products are
  36 and 28, the doubles lie just below, and the tile is 35 by 27.
\<close>

lemma layout_945:
  "gp_outTileW 945 588 \<lparr>rows = 20, cols = 25, count = 500\<rparr> = 35"
  "gp_outTileH 945 588 \<lparr>rows = 20, cols = 25, count = 500\<rparr> = 27"
  "gp_pad 945 588 \<lparr>rows = 20, cols = 25, count = 500\<rparr> = 6"
proof -
  let ?g = "\<lparr>rows = 20, cols = 25, count = 500\<rparr>"
  have s: "rd (900 / 945) < 1" unfolding rd_2021 by simp
  have fw: "floorScaled 945 25 945 = 35"
    using rd_35 s by (simp add: floorScaled_def maxBoardPx_def min_def)
  have fh: "floorScaled 588 20 945 = 27"
    using rd_27 s by (simp add: floorScaled_def maxBoardPx_def min_def)
  show w: "gp_outTileW 945 588 ?g = 35"
    by (simp add: gp_outTileW_def fw)
  show h: "gp_outTileH 945 588 ?g = 27"
    by (simp add: gp_outTileH_def fh)
  show "gp_pad 945 588 ?g = 6"
    unfolding gp_pad_def w h using rd_pad27 by simp
qed


section \<open>Properties of the session\<close>

text \<open>
  Claim C3. With a selected piece \<open>p\<close> and a target cell \<open>t\<close>, the attempt is accepted
  (feedback other than \<open>Bad\<close>) iff \<open>p.id = t\<close> and the cell is empty or already holds
  \<open>p\<close>. On acceptance with rotation enabled and \<open>p.rotation \<noteq> 0\<close> the cell holds \<open>p\<close>
  afterwards, the selection is kept and the feedback is \<open>Warn\<close>; with rotation disabled
  or \<open>p.rotation = 0\<close> the cell holds \<open>p\<close>, the selection is cleared and the feedback is
  \<open>Good\<close>. For any other target the state is unchanged.
\<close>

theorem tryPlace_behaviour:
  assumes "grid s = Some g" and "selectedPieceId s = Some sel"
    and "js_nth (piecesById s) sel = Some p"
  shows "let accepted = (p_id p = t \<and> (cellAt (placements s) t = None
                                         \<or> cellAt (placements s) t = Some (p_id p)));
             (s', fb) = tryPlaceSelectedAtCell t s
         in (fb \<noteq> Some Bad) = accepted
          \<and> (accepted \<and> rotationEnabled s \<and> rotation p \<noteq> R0 \<longrightarrow>
                cellAt (placements s') t = Some (p_id p)
              \<and> selectedPieceId s' = selectedPieceId s \<and> fb = Some Warn)
          \<and> (accepted \<and> (\<not> rotationEnabled s \<or> rotation p = R0) \<longrightarrow>
                cellAt (placements s') t = Some (p_id p)
              \<and> selectedPieceId s' = None \<and> fb = Some Good)
          \<and> (\<not> accepted \<longrightarrow> s' = s \<and> fb = Some Bad)"
  using assms
  by (auto simp: tryPlaceSelectedAtCell_def Let_def placePiece_def cellAt_def js_set_def
      nth_append split: option.splits)


theorem tryPlace_behaviour_witness:
  "grid example_session = Some \<lparr>rows = 1, cols = 2, count = 2\<rparr>
   \<and> selectedPieceId example_session = Some 1
   \<and> js_nth (piecesById example_session) 1 = Some (example_piece 1 R90 False)
   \<and> tryPlaceSelectedAtCell 1 example_session =
        (example_session\<lparr>piecesById := [example_piece 0 R0 False, example_piece 1 R90 True],
                          placements := [None, Some 1], trayOrder := [0]\<rparr>, Some Warn)
   \<and> tryPlaceSelectedAtCell 0 example_session = (example_session, Some Bad)"
proof -
  have h1: "grid example_session = Some \<lparr>rows = 1, cols = 2, count = 2\<rparr>"
    and h2: "selectedPieceId example_session = Some 1"
    and h3: "js_nth (piecesById example_session) 1 = Some (example_piece 1 R90 False)"
    by (simp_all add: example_session_def js_nth_def)
  have bad: "tryPlaceSelectedAtCell 0 example_session = (example_session, Some Bad)"
    using tryPlace_behaviour [OF h1 h2 h3, of 0]
    by (simp add: Let_def example_piece_def split: prod.splits)
  have warn: "tryPlaceSelectedAtCell 1 example_session =
        (example_session\<lparr>piecesById := [example_piece 0 R0 False, example_piece 1 R90 True],
                          placements := [None, Some 1], trayOrder := [0]\<rparr>, Some Warn)"
    by (simp add: tryPlaceSelectedAtCell_def example_session_def example_piece_def js_nth_def
        cellAt_def placePiece_def js_set_def Let_def)
  from h1 h2 h3 bad warn show ?thesis by simp
qed

lemma own_list_iff:
  "own_list xs \<longleftrightarrow> (\<forall>i < length xs. xs ! i = None \<or> xs ! i = Some i)"
  by (auto simp: own_list_def list_all_iff in_set_enumerate_eq)

lemma own_list_absent:
  assumes "own_list xs" and "i < length xs \<longrightarrow> xs ! i = None"
  shows "count_list xs (Some i) = 0"
proof -
  have "Some i \<notin> set xs"
  proof
    assume "Some i \<in> set xs"
    then obtain j where j: "j < length xs" "xs ! j = Some i"
      by (auto simp: in_set_conv_nth)
    with assms(1) have "j = i" by (auto simp: own_list_iff)
    with j assms(2) show False by simp
  qed
  then show ?thesis by (simp add: count_list_0_iff)
qed

lemma count_list_update:
  "i < length xs \<Longrightarrow>
     count_list (xs[i := v]) y + (if xs ! i = y then 1 else 0)
       = count_list xs y + (if v = y then 1 else 0)"
proof (induction xs arbitrary: i)
  case Nil
  then show ?case by simp
next
  case (Cons x xs)
  show ?case
  proof (cases i)
    case 0
    then show ?thesis by simp
  next
    case (Suc n)
    with Cons.prems have "n < length xs" by simp
    from Cons.IH [OF this] Suc show ?thesis by (simp split: if_splits)
  qed
qed

lemma count_list_remove1:
  "count_list (remove1 x xs) y = (if x = y then count_list xs y - 1 else count_list xs y)"
  by (induction xs) auto

lemma findIndex_Some:
  "findIndex P xs = Some idx \<Longrightarrow> idx < length xs \<and> P (xs ! idx)"
  by (induction xs arbitrary: idx) (auto split: if_splits)

lemma findIndex_None:
  "findIndex P xs = None \<Longrightarrow> \<forall>x \<in> set xs. \<not> P x"
  by (induction xs) (auto split: if_splits)

lemma floor_draw:
  assumes "0 \<le> u" and "u < 1"
  shows "nat \<lfloor>u * real (Suc m)\<rfloor> < Suc m"
proof -
  have "u * real (Suc m) < real (Suc m)"
    using assms by (simp add: mult_less_cancel_right2 del: of_nat_Suc)
  then have "\<lfloor>u * real (Suc m)\<rfloor> < int (Suc m)"
    by (simp add: floor_less_iff del: of_nat_Suc)
  then show ?thesis by linarith
qed

lemma shuffle_loop_mset:
  assumes "unit_draws rnd"
  shows "i < length arr \<Longrightarrow> mset (fst (shuffle_loop i arr rnd k)) = mset arr"
proof (induction i arbitrary: arr k)
  case 0
  then show ?case by simp
next
  case (Suc i)
  let ?j = "nat \<lfloor>rnd k * real (Suc i + 1)\<rfloor>"
  let ?arr = "arr[Suc i := arr ! ?j, ?j := arr ! Suc i]"
  from assms have "0 \<le> rnd k" "rnd k < 1" by (simp_all add: unit_draws_def)
  from floor_draw [OF this, of "Suc i"] have "?j < Suc (Suc i)" by simp
  with Suc.prems have j: "?j < length arr" by simp
  from mset_swap [OF j Suc.prems] have sw: "mset ?arr = mset arr" .
  have "i < length ?arr" using Suc.prems by simp
  from Suc.IH [OF this, of "k + 1"] sw show ?case
    by (simp add: Let_def)
qed

lemma shuffleInPlace_mset:
  assumes "unit_draws rnd"
  shows "mset (fst (shuffleInPlace arr rnd k)) = mset arr"
proof (cases arr)
  case Nil
  then show ?thesis by (simp add: shuffleInPlace_def)
next
  case (Cons a as)
  then have "length arr - 1 < length arr" by simp
  from shuffle_loop_mset [OF assms this] show ?thesis
    by (simp add: shuffleInPlace_def)
qed

lemma shuffleInPlace_count:
  assumes "unit_draws rnd"
  shows "count_list (fst (shuffleInPlace arr rnd k)) x = count_list arr x"
  using shuffleInPlace_mset [OF assms, of arr k] by (metis count_mset)


lemma own_list_update_None: "own_list xs \<Longrightarrow> own_list (xs[i := None])"
  unfolding own_list_iff
proof (intro allI impI)
  fix j assume a: "\<forall>i<length xs. xs ! i = None \<or> xs ! i = Some i" and j: "j < length (xs[i := None])"
  then show "xs[i := None] ! j = None \<or> xs[i := None] ! j = Some j"
    by (cases "j = i") simp_all
qed

lemma own_list_update_own: "own_list xs \<Longrightarrow> own_list (xs[i := Some i])"
  unfolding own_list_iff
proof (intro allI impI)
  fix j assume a: "\<forall>i<length xs. xs ! i = None \<or> xs ! i = Some i" and j: "j < length (xs[i := Some i])"
  then show "xs[i := Some i] ! j = None \<or> xs[i := Some i] ! j = Some j"
    by (cases "j = i") simp_all
qed

lemma own_list_js_set: "own_list xs \<Longrightarrow> own_list (js_set xs i (Some i))"
proof (cases "i < length xs")
  case True
  assume "own_list xs"
  with True show ?thesis by (simp add: js_set_def own_list_update_own)
next
  case False
  assume o: "own_list xs"
  show ?thesis
    unfolding own_list_iff
  proof (intro allI impI)
    fix j assume j: "j < length (js_set xs i (Some i))"
    from False have l: "length (js_set xs i (Some i)) = Suc i" by (simp add: js_set_def)
    show "js_set xs i (Some i) ! j = None \<or> js_set xs i (Some i) ! j = Some j"
    proof (cases "j < length xs")
      case True
      with False o show ?thesis by (simp add: js_set_def nth_append own_list_iff)
    next
      case nl: False
      show ?thesis
      proof (cases "j = i")
        case True
        with False show ?thesis by (simp add: js_set_def nth_append)
      next
        case ne: False
        with j l have "j - length xs < i - length xs" using nl False by simp
        with False nl show ?thesis by (simp add: js_set_def nth_append)
      qed
    qed
  qed
qed

lemma own_list_solved: "own_list (map Some [0..<n])"
  by (simp add: own_list_iff)

lemma own_list_empty: "own_list (replicate n None)"
  by (simp add: own_list_iff)

lemma count_list_upt: "count_list [0..<n] i = (if i < n then 1 else 0)"
  by (induction n) auto

lemma count_list_map_Some: "count_list (map Some xs) (Some i) = count_list xs i"
  by (induction xs) auto

lemma count_list_replicate_None: "count_list (replicate n None) (Some i) = 0"
  by (induction n) auto

lemma place_counts:
  assumes own: "own_list pl" and t: "t < length pl" and empty: "pl ! t = None"
    and part: "\<forall>i < length pl. count_list tray i + count_list pl (Some i) = 1"
  shows "\<forall>i < length pl. count_list (remove1 t tray) i + count_list (pl[t := Some t]) (Some i) = 1"
proof (intro allI impI)
  fix i assume i: "i < length pl"
  have absent: "count_list pl (Some t) = 0"
    using own_list_absent [OF own, of t] empty by simp
  from count_list_update [OF t, of "Some t" "Some i"] empty
  have upd: "count_list (pl[t := Some t]) (Some i) = count_list pl (Some i) + (if t = i then 1 else 0)"
    by simp
  show "count_list (remove1 t tray) i + count_list (pl[t := Some t]) (Some i) = 1"
  proof (cases "t = i")
    case True
    with part i absent have "count_list tray i = 1" by auto
    with True upd absent show ?thesis by (simp add: count_list_remove1)
  next
    case False
    with part i upd show ?thesis by (simp add: count_list_remove1)
  qed
qed

lemma unplace_counts:
  assumes own: "own_list pl"
    and part: "\<forall>i < length pl. count_list tray i + count_list pl (Some i) = 1"
  shows "\<forall>i < length pl.
           count_list (if pid \<in> set tray then tray else pid # tray) i
           + count_list (case findIndex (\<lambda>x. x = Some pid) pl of
                           None \<Rightarrow> pl | Some idx \<Rightarrow> pl[idx := None]) (Some i) = 1"
proof (cases "findIndex (\<lambda>x. x = Some pid) pl")
  case None
  from findIndex_None [OF None] have notin: "Some pid \<notin> set pl" by auto
  then have zero: "count_list pl (Some pid) = 0" by (simp add: count_list_0_iff)
  show ?thesis
  proof (intro allI impI)
    fix i assume i: "i < length pl"
    show "count_list (if pid \<in> set tray then tray else pid # tray) i
           + count_list (case findIndex (\<lambda>x. x = Some pid) pl of
                           None \<Rightarrow> pl | Some idx \<Rightarrow> pl[idx := None]) (Some i) = 1"
    proof (cases "pid = i")
      case True
      with part i zero have "count_list tray pid = 1" by auto
      then have "pid \<in> set tray" by (metis count_list_0_iff zero_neq_one)
      with part i None show ?thesis by simp
    next
      case False
      with part i None show ?thesis by simp
    qed
  qed
next
  case (Some idx)
  from findIndex_Some [OF Some] have idx: "idx < length pl" "pl ! idx = Some pid" by auto
  with own have same: "idx = pid" by (auto simp: own_list_iff)
  from idx have "Some pid \<in> set pl" by (metis nth_mem)
  then have pos: "count_list pl (Some pid) \<noteq> 0" by (simp add: count_list_0_iff)
  from part idx same have one: "count_list tray pid + count_list pl (Some pid) = 1" by auto
  with pos have tr: "count_list tray pid = 0" and bd: "count_list pl (Some pid) = 1" by auto
  from tr have notin: "pid \<notin> set tray" by (simp add: count_list_0_iff)
  show ?thesis
  proof (intro allI impI)
    fix i assume i: "i < length pl"
    from count_list_update [OF idx(1), of None "Some i"] idx(2)
    have upd: "count_list (pl[idx := None]) (Some i) + (if pid = i then 1 else 0)
               = count_list pl (Some i)" by simp
    show "count_list (if pid \<in> set tray then tray else pid # tray) i
           + count_list (case findIndex (\<lambda>x. x = Some pid) pl of
                           None \<Rightarrow> pl | Some idx \<Rightarrow> pl[idx := None]) (Some i) = 1"
    proof (cases "pid = i")
      case True
      with upd bd tr notin Some show ?thesis by simp
    next
      case False
      with upd part i notin Some show ?thesis by simp
    qed
  qed
qed

lemma unplace_own:
  "own_list pl \<Longrightarrow>
     own_list (case findIndex P pl of None \<Rightarrow> pl | Some idx \<Rightarrow> pl[idx := None])"
  by (simp add: own_list_update_None split: option.splits)

lemma unplace_length:
  "length (case findIndex P pl of None \<Rightarrow> pl | Some idx \<Rightarrow> pl[idx := None]) = length pl"
  by (simp split: option.splits)


lemma ids_update:
  assumes "\<forall>p \<in> set ps. p_id p < n" and "p_id q < n"
  shows "\<forall>p \<in> set (ps[i := q]). p_id p < n"
  using assms set_update_subset_insert [of ps i q] by auto

lemma js_nth_mem: "js_nth xs i = Some x \<Longrightarrow> x \<in> set xs \<and> i < length xs \<and> xs ! i = x"
  by (auto simp: js_nth_def split: if_splits)

lemma placePiece_fields:
  "placements (placePiece a b s) = js_set (placements s) b (Some a)"
  "trayOrder (placePiece a b s) = remove1 a (trayOrder s)"
  "grid (placePiece a b s) = grid s"
  "selectedPieceId (placePiece a b s) = selectedPieceId s"
  "rotationEnabled (placePiece a b s) = rotationEnabled s"
  "piecesById (placePiece a b s) =
     (case js_nth (piecesById s) a of
        None \<Rightarrow> piecesById s
      | Some p \<Rightarrow> (piecesById s)[a := p\<lparr>placed := True\<rparr>])"
  by (simp_all add: placePiece_def)

text \<open>The state after an attempt, case by case.\<close>

lemma tryPlace_state:
  "fst (tryPlaceSelectedAtCell t s) = s
   \<or> fst (tryPlaceSelectedAtCell t s) = s\<lparr>selectedPieceId := None\<rparr>
   \<or> (\<exists>sel piece. selectedPieceId s = Some sel \<and> js_nth (piecesById s) sel = Some piece
        \<and> p_id piece = t \<and> cellAt (placements s) t = None
        \<and> (fst (tryPlaceSelectedAtCell t s) = placePiece t t s
           \<or> fst (tryPlaceSelectedAtCell t s) = (placePiece t t s)\<lparr>selectedPieceId := None\<rparr>))"
proof (cases "grid s")
  case None
  then show ?thesis by (simp add: tryPlaceSelectedAtCell_def)
next
  case g: (Some g)
  show ?thesis
  proof (cases "selectedPieceId s")
    case None
    with g show ?thesis by (simp add: tryPlaceSelectedAtCell_def)
  next
    case sel: (Some sel)
    show ?thesis
    proof (cases "js_nth (piecesById s) sel")
      case None
      with g sel show ?thesis by (simp add: tryPlaceSelectedAtCell_def)
    next
      case piece: (Some piece)
      let ?same = "cellAt (placements s) t = Some (p_id piece)"
      let ?acc = "p_id piece = t \<and> (cellAt (placements s) t = None \<or> ?same)"
      let ?warn = "rotationEnabled s \<and> \<not> (\<not> rotationEnabled s \<or> rotation piece = R0)"
      show ?thesis
      proof (cases ?acc)
        case False
        then have "fst (tryPlaceSelectedAtCell t s) = s"
          using g sel piece by (auto simp: tryPlaceSelectedAtCell_def Let_def)
        then show ?thesis by simp
      next
        case acc: True
        show ?thesis
        proof (cases ?same)
          case True
          with acc have "fst (tryPlaceSelectedAtCell t s) = (if ?warn then s else s\<lparr>selectedPieceId := None\<rparr>)"
            using g sel piece by (simp add: tryPlaceSelectedAtCell_def Let_def)
          then show ?thesis by (cases ?warn) simp_all
        next
          case False
          with acc have empty: "cellAt (placements s) t = None" and id: "p_id piece = t" by auto
          from acc False
          have "fst (tryPlaceSelectedAtCell t s)
                = (if ?warn then placePiece t t s else (placePiece t t s)\<lparr>selectedPieceId := None\<rparr>)"
            using g sel piece by (simp add: tryPlaceSelectedAtCell_def Let_def)
          then have "fst (tryPlaceSelectedAtCell t s) = placePiece t t s
           \<or> fst (tryPlaceSelectedAtCell t s) = (placePiece t t s)\<lparr>selectedPieceId := None\<rparr>"
            by (cases ?warn) simp_all
          with sel piece id empty show ?thesis by blast
        qed
      qed
    qed
  qed
qed

lemma tryPlace_placements:
  "placements (fst (tryPlaceSelectedAtCell t s)) = placements s
   \<or> placements (fst (tryPlaceSelectedAtCell t s)) = js_set (placements s) t (Some t)"
  using tryPlace_state [of t s] by (auto simp: placePiece_fields)

lemma step_own_cells: "own_cells s \<Longrightarrow> own_cells (step s a)"
proof (cases a)
  case (AttemptPlace t)
  assume "own_cells s"
  with tryPlace_placements [of t s] AttemptPlace show ?thesis
    by (auto simp: own_cells_def own_list_js_set)
next
  case (Unplace pid)
  assume "own_cells s"
  with Unplace show ?thesis
    by (simp add: own_cells_def unplacePiece_def unplace_own)
next
  case SolveAll
  assume "own_cells s"
  with SolveAll show ?thesis
    by (simp add: own_cells_def solvePuzzle_def own_list_solved split: option.splits)
next
  case (Rotate pid)
  assume "own_cells s"
  with Rotate show ?thesis
    by (simp add: own_cells_def rotatePiece90_def setPieceRotation_def split: option.splits)
next
  case (SetRotation b)
  assume "own_cells s"
  with SetRotation show ?thesis
    by (simp add: own_cells_def setRotationEnabled_def Let_def)
qed (simp_all add: own_cells_def)

lemma run_own_cells: "own_cells s \<Longrightarrow> own_cells (run s as)"
  by (induction as arbitrary: s) (simp_all add: step_own_cells)

lemma startSession_placements:
  "placements (startSession naturalW naturalH g rot sd rnd) = replicate (nat (count g)) None"
  by (simp add: startSession_def Let_def split: prod.splits)

lemma session_inv_frame:
  assumes "session_inv n s" and "grid s' = grid s"
    and "map p_id (piecesById s') = map p_id (piecesById s)"
    and "length (placements s') = length (placements s)"
    and "own_list (placements s')"
    and "\<forall>i < n. count_list (trayOrder s') i + count_list (placements s') (Some i) = 1"
  shows "session_inv n s'"
proof -
  have eq: "p_id ` set (piecesById s') = p_id ` set (piecesById s)"
    using assms(3) by (metis set_map)
  have "\<forall>p \<in> set (piecesById s'). p_id p < n"
  proof
    fix p assume "p \<in> set (piecesById s')"
    then have "p_id p \<in> p_id ` set (piecesById s)" using eq by blast
    then obtain q where "q \<in> set (piecesById s)" "p_id p = p_id q" by blast
    with assms(1) show "p_id p < n" by (simp add: session_inv_def)
  qed
  with assms show ?thesis
    by (simp add: session_inv_def piece_count_def)
qed

lemma map_p_id_update:
  assumes "js_nth ps i = Some p" and "p_id q = p_id p"
  shows "map p_id (ps[i := q]) = map p_id ps"
proof -
  from js_nth_mem [OF assms(1)] have "i < length ps" "ps ! i = p" by auto
  then have "(map p_id ps)[i := p_id q] = map p_id ps"
    using assms(2) by (metis length_map list_update_id nth_map)
  then show ?thesis by (simp add: map_update)
qed

lemma placePiece_ids: "map p_id (piecesById (placePiece a b s)) = map p_id (piecesById s)"
  by (cases "js_nth (piecesById s) a") (simp_all add: placePiece_fields map_p_id_update)

lemma placePiece_inv:
  assumes inv: "session_inv n s" and t: "t < n" and empty: "cellAt (placements s) t = None"
  shows "session_inv n (placePiece t t s)"
proof (rule session_inv_frame [OF inv])
  from inv have len: "length (placements s) = n" and own: "own_list (placements s)"
    and part: "\<forall>i < length (placements s). count_list (trayOrder s) i + count_list (placements s) (Some i) = 1"
    by (simp_all add: session_inv_def)
  from t len have tl: "t < length (placements s)" by simp
  with empty have e: "placements s ! t = None" by (simp add: cellAt_def)
  have set: "placements (placePiece t t s) = (placements s)[t := Some t]"
    using tl by (simp add: placePiece_fields js_set_def)
  show "grid (placePiece t t s) = grid s" by (simp add: placePiece_fields)
  show "map p_id (piecesById (placePiece t t s)) = map p_id (piecesById s)"
    by (rule placePiece_ids)
  show "length (placements (placePiece t t s)) = length (placements s)"
    by (simp add: set)
  show "own_list (placements (placePiece t t s))"
    unfolding set by (rule own_list_update_own [OF own])
  show "\<forall>i < n. count_list (trayOrder (placePiece t t s)) i
          + count_list (placements (placePiece t t s)) (Some i) = 1"
    using place_counts [OF own tl e part] len
    unfolding set placePiece_fields(2) by simp
qed

lemma session_inv_deselect:
  "session_inv n s \<Longrightarrow> session_inv n (s\<lparr>selectedPieceId := x\<rparr>)"
  by (simp add: session_inv_def piece_count_def)

lemma tryPlace_inv:
  assumes inv: "session_inv n s"
  shows "session_inv n (fst (tryPlaceSelectedAtCell t s))"
proof -
  from tryPlace_state [of t s]
  consider "fst (tryPlaceSelectedAtCell t s) = s"
    | "fst (tryPlaceSelectedAtCell t s) = s\<lparr>selectedPieceId := None\<rparr>"
    | sel piece where "js_nth (piecesById s) sel = Some piece" "p_id piece = t"
        "cellAt (placements s) t = None"
        "fst (tryPlaceSelectedAtCell t s) = placePiece t t s
           \<or> fst (tryPlaceSelectedAtCell t s) = (placePiece t t s)\<lparr>selectedPieceId := None\<rparr>"
    by blast
  then show ?thesis
  proof cases
    case 1
    with inv show ?thesis by simp
  next
    case 2
    with inv show ?thesis by (simp add: session_inv_deselect)
  next
    case 3
    from js_nth_mem [OF 3(1)] have "piece \<in> set (piecesById s)" by simp
    with inv 3(2) have "t < n" by (auto simp: session_inv_def)
    from placePiece_inv [OF inv this 3(3)] 3(4) show ?thesis
      by (auto simp: session_inv_deselect)
  qed
qed

lemma unplace_inv:
  assumes inv: "session_inv n s"
  shows "session_inv n (unplacePiece pid s)"
proof (rule session_inv_frame [OF inv])
  from inv have len: "length (placements s) = n" and own: "own_list (placements s)"
    and part: "\<forall>i < length (placements s). count_list (trayOrder s) i + count_list (placements s) (Some i) = 1"
    by (simp_all add: session_inv_def)
  show "grid (unplacePiece pid s) = grid s" by (simp add: unplacePiece_def)
  show "map p_id (piecesById (unplacePiece pid s)) = map p_id (piecesById s)"
    by (cases "js_nth (piecesById s) pid") (simp_all add: unplacePiece_def map_p_id_update)
  show "length (placements (unplacePiece pid s)) = length (placements s)"
    by (simp add: unplacePiece_def unplace_length)
  show "own_list (placements (unplacePiece pid s))"
    using own by (simp add: unplacePiece_def unplace_own)
  show "\<forall>i < n. count_list (trayOrder (unplacePiece pid s)) i
          + count_list (placements (unplacePiece pid s)) (Some i) = 1"
    using unplace_counts [OF own part, of pid] len by (simp add: unplacePiece_def)
qed

lemma solve_inv:
  assumes inv: "session_inv n s"
  shows "session_inv n (fst (solvePuzzle s))"
proof -
  from inv obtain g where g: "grid s = Some g" and n: "nat (count g) = n"
    by (auto simp: session_inv_def piece_count_def split: option.splits)
  from inv have len: "length (placements s) = n" by (simp add: session_inv_def)
  have st: "fst (solvePuzzle s) =
      s\<lparr>piecesById := map (\<lambda>p. p\<lparr>rotation := R0, placed := True\<rparr>) (piecesById s),
        placements := map Some [0..<n], trayOrder := [], selectedPieceId := None\<rparr>"
    using g n by (simp add: solvePuzzle_def)
  show ?thesis
    unfolding st
  proof (rule session_inv_frame [OF inv])
    show "\<forall>i < n. count_list (trayOrder (s\<lparr>piecesById := map (\<lambda>p. p\<lparr>rotation := R0, placed := True\<rparr>) (piecesById s),
        placements := map Some [0..<n], trayOrder := [], selectedPieceId := None\<rparr>)) i
          + count_list (placements (s\<lparr>piecesById := map (\<lambda>p. p\<lparr>rotation := R0, placed := True\<rparr>) (piecesById s),
        placements := map Some [0..<n], trayOrder := [], selectedPieceId := None\<rparr>)) (Some i) = 1"
      by (simp add: count_list_map_Some count_list_upt)
  qed (simp_all add: own_list_solved comp_def len)
qed

lemma rotate_inv:
  assumes inv: "session_inv n s"
  shows "session_inv n (rotatePiece90 pid s)"
proof (cases "js_nth (piecesById s) pid")
  case None
  with inv show ?thesis by (simp add: rotatePiece90_def)
next
  case (Some p)
  from inv have "own_list (placements s)"
    and "\<forall>i < n. count_list (trayOrder s) i + count_list (placements s) (Some i) = 1"
    by (simp_all add: session_inv_def)
  with Some show ?thesis
    by (intro session_inv_frame [OF inv])
       (simp_all add: rotatePiece90_def setPieceRotation_def map_p_id_update)
qed

lemma setRotation_inv:
  assumes inv: "session_inv n s"
  shows "session_inv n (setRotationEnabled b s)"
proof -
  from inv have "own_list (placements s)"
    and "\<forall>i < n. count_list (trayOrder s) i + count_list (placements s) (Some i) = 1"
    by (simp_all add: session_inv_def)
  moreover have "map p_id (map (\<lambda>p. if rotation p = R0 then p else p\<lparr>rotation := R0\<rparr>) (piecesById s))
      = map p_id (piecesById s)"
    by (induction "piecesById s") auto
  ultimately show ?thesis
    by (intro session_inv_frame [OF inv]) (simp_all add: setRotationEnabled_def Let_def)
qed

lemma shuffle_inv:
  assumes inv: "session_inv n s" and "unit_draws rnd"
  shows "session_inv n (s\<lparr>trayOrder := fst (shuffleInPlace (trayOrder s) rnd 0)\<rparr>)"
proof -
  from inv have "own_list (placements s)"
    and "\<forall>i < n. count_list (trayOrder s) i + count_list (placements s) (Some i) = 1"
    by (simp_all add: session_inv_def)
  then show ?thesis
    by (intro session_inv_frame [OF inv]) (simp_all add: shuffleInPlace_count [OF assms(2)])
qed

lemma step_session_inv:
  assumes "session_inv n s" and "valid_action a"
  shows "session_inv n (step s a)"
  using assms
  by (cases a)
     (simp_all add: session_inv_deselect rotate_inv tryPlace_inv unplace_inv solve_inv
        shuffle_inv setRotation_inv)

lemma run_session_inv:
  "session_inv n s \<Longrightarrow> list_all valid_action as \<Longrightarrow> session_inv n (run s as)"
  by (induction as arbitrary: s) (simp_all add: step_session_inv)

lemma piecesFor_ids:
  "map p_id (fst (piecesFor naturalW naturalH g rr rnd cells k))
     = map (\<lambda>(r, c). r * nat (cols g) + c) cells"
proof (induction cells arbitrary: k)
  case Nil
  then show ?case by simp
next
  case (Cons rc cells)
  obtain r c where rc: "rc = (r, c)" by (cases rc)
  show ?case
    using Cons.IH [of "k + 1"] Cons.IH [of k]
    by (cases rr) (simp_all add: rc Let_def newPiece_def case_prod_beta)
qed

lemma gridCells_ids:
  "map (\<lambda>(r, c). r * C + c) (concat (map (\<lambda>r. map (\<lambda>c. (r, c)) [0..<C]) [0..<R])) = [0..<R * C]"
proof (induction R)
  case 0
  then show ?case by simp
next
  case (Suc R)
  have "map (\<lambda>c. R * C + c) [0..<C] = [R * C..<R * C + C]"
    by (simp add: map_add_upt add.commute)
  moreover have "[0..<R * C + C] = [0..<R * C] @ [R * C..<R * C + C]"
    by (metis le_add1 upt_add_eq_append zero_le)
  ultimately show ?case
    using Suc by (simp add: comp_def add.commute)
qed

lemma generatePieces_ids:
  "map p_id (fst (generatePieces naturalW naturalH g opts rnd))
     = [0..<nat (rows g) * nat (cols g)]"
  by (simp add: generatePieces_def Let_def piecesFor_ids gridCells_def gridCells_ids
      case_prod_beta)

lemma startSession_fields:
  "grid (startSession naturalW naturalH g rot sd rnd) = Some g"
  "piecesById (startSession naturalW naturalH g rot sd rnd)
     = fst (generatePieces naturalW naturalH g \<lparr>randomRotation = rot, seed = sd\<rparr> rnd)"
  "\<exists>k. trayOrder (startSession naturalW naturalH g rot sd rnd)
     = fst (shuffleInPlace [0..<nat (rows g) * nat (cols g)] rnd k)"
proof -
  let ?gen = "generatePieces naturalW naturalH g \<lparr>randomRotation = rot, seed = sd\<rparr> rnd"
  have "sorted (map p_id (fst ?gen))"
    by (simp add: generatePieces_ids)
  then have srt: "sort_key p_id (fst ?gen) = fst ?gen"
    by (rule sort_key_id_if_sorted)
  show "grid (startSession naturalW naturalH g rot sd rnd) = Some g"
    by (simp add: startSession_def Let_def case_prod_beta)
  show "piecesById (startSession naturalW naturalH g rot sd rnd) = fst ?gen"
    using srt by (simp add: startSession_def Let_def case_prod_beta)
  have "trayOrder (startSession naturalW naturalH g rot sd rnd)
     = fst (shuffleInPlace [0..<nat (rows g) * nat (cols g)] rnd (snd ?gen))"
    using srt generatePieces_ids [of naturalW naturalH g "\<lparr>randomRotation = rot, seed = sd\<rparr>" rnd]
    by (simp add: startSession_def Let_def case_prod_beta)
  then show "\<exists>k. trayOrder (startSession naturalW naturalH g rot sd rnd)
     = fst (shuffleInPlace [0..<nat (rows g) * nat (cols g)] rnd k)" ..
qed

lemma startSession_inv:
  assumes "1 \<le> rows g" and "1 \<le> cols g" and "rows g * cols g = count g"
    and "unit_draws rnd"
  shows "session_inv (nat (count g)) (startSession naturalW naturalH g rot sd rnd)"
proof -
  let ?s = "startSession naturalW naturalH g rot sd rnd"
  have n: "nat (rows g) * nat (cols g) = nat (count g)"
    using assms(1,2,3) by (metis nat_mult_distrib order_trans zero_le_one)
  note f = startSession_fields [of naturalW naturalH g rot sd rnd]
  from f(3) obtain k where tray: "trayOrder ?s = fst (shuffleInPlace [0..<nat (count g)] rnd k)"
    unfolding n by blast
  have ids: "\<forall>p \<in> set (piecesById ?s). p_id p < nat (count g)"
  proof
    fix p assume "p \<in> set (piecesById ?s)"
    then have "p_id p \<in> set (map p_id (piecesById ?s))" by simp
    then show "p_id p < nat (count g)"
      unfolding f(2) generatePieces_ids n by simp
  qed
  have part: "\<forall>i < nat (count g).
      count_list (trayOrder ?s) i + count_list (placements ?s) (Some i) = 1"
    by (simp add: tray shuffleInPlace_count [OF assms(4)] count_list_upt
        startSession_placements count_list_replicate_None)
  show ?thesis
    using ids part f(1)
    by (simp add: session_inv_def piece_count_def startSession_placements own_list_empty)
qed

lemma partition_inv_iff:
  "partition_inv s \<longleftrightarrow>
     (\<forall>i < piece_count s. count_list (trayOrder s) i + count_list (placements s) (Some i) = 1)"
  by (auto simp: partition_inv_def list_all_iff)

text \<open>A concrete session: a 100 by 100 image cut into one row of two pieces.\<close>

lemma start_eval:
  "startSession 100 100 \<lparr>rows = 1, cols = 2, count = 2\<rparr> False None (\<lambda>k. 0) =
     \<lparr>grid = Some \<lparr>rows = 1, cols = 2, count = 2\<rparr>,
      piecesById = [\<lparr>p_id = 0, row = 0, col = 0, outW = 68, outH = 118, tileW = 50,
                      tileH = 100, pad = 9, rotation = R0, placed = False\<rparr>,
                    \<lparr>p_id = 1, row = 0, col = 1, outW = 68, outH = 118, tileW = 50,
                      tileH = 100, pad = 9, rotation = R0, placed = False\<rparr>],
      trayOrder = [1, 0], placements = [None, None], selectedPieceId = None,
      rotationEnabled = False\<rparr>"
  by (simp add: startSession_def generatePieces_def buildEdges_def gridCells_def newEdgeSpec_def Let_def
      numeral_2_eq_2 upt_rec newPiece_def layout_100 shuffleInPlace_def)

lemma run_eval:
  "run (startSession 100 100 \<lparr>rows = 1, cols = 2, count = 2\<rparr> False None (\<lambda>k. 0))
       [Select 1, AttemptPlace 1] =
     \<lparr>grid = Some \<lparr>rows = 1, cols = 2, count = 2\<rparr>,
      piecesById = [\<lparr>p_id = 0, row = 0, col = 0, outW = 68, outH = 118, tileW = 50,
                      tileH = 100, pad = 9, rotation = R0, placed = False\<rparr>,
                    \<lparr>p_id = 1, row = 0, col = 1, outW = 68, outH = 118, tileW = 50,
                      tileH = 100, pad = 9, rotation = R0, placed = True\<rparr>],
      trayOrder = [0], placements = [None, Some 1], selectedPieceId = None,
      rotationEnabled = False\<rparr>"
  unfolding start_eval
  by (simp add: tryPlaceSelectedAtCell_def js_nth_def cellAt_def placePiece_def js_set_def Let_def)

text \<open>
  Claim C10. In every state reached from the initial state of a session by select,
  deselect, rotate, attempt-place, unplace, solve-all, shuffle and the rotation switch,
  every board cell is empty or holds the piece whose id is the cell's index.
\<close>

theorem own_cells_reachable:
  "own_cells (run (startSession naturalW naturalH g rot sd rnd) as)"
proof -
  have "own_cells (startSession naturalW naturalH g rot sd rnd)"
    by (simp add: own_cells_def startSession_placements own_list_empty)
  then show ?thesis by (rule run_own_cells)
qed


theorem own_cells_reachable_witness:
  "placements (run (startSession 100 100 \<lparr>rows = 1, cols = 2, count = 2\<rparr> False None (\<lambda>k. 0))
                  [Select 1, AttemptPlace 1]) = [None, Some 1]
   \<and> own_cells (run (startSession 100 100 \<lparr>rows = 1, cols = 2, count = 2\<rparr> False None (\<lambda>k. 0))
                  [Select 1, AttemptPlace 1])"
proof -
  have "placements (run (startSession 100 100 \<lparr>rows = 1, cols = 2, count = 2\<rparr> False None (\<lambda>k. 0))
                  [Select 1, AttemptPlace 1]) = [None, Some 1]"
    unfolding run_eval by simp
  with own_cells_reachable [of 100 100 "\<lparr>rows = 1, cols = 2, count = 2\<rparr>" False None "\<lambda>k. 0"
      "[Select 1, AttemptPlace 1]"]
  show ?thesis by blast
qed

text \<open>
  Claim C4. From the initial state of a session (all piece ids in the tray, an empty
  board), every transition (select, rotate, attempt-place, unplace, solve-all, tray
  reshuffle, rotation switch) keeps each piece id below the piece count exactly once in
  the tray and the occupied cells together: never both, never neither, never twice.
\<close>

theorem partition_reachable:
  assumes "1 \<le> rows g" and "1 \<le> cols g" and "rows g * cols g = count g"
    and "unit_draws rnd" and "list_all valid_action as"
  shows "partition_inv (run (startSession naturalW naturalH g rot sd rnd) as)"
proof -
  from run_session_inv [OF startSession_inv [OF assms(1-4)] assms(5)]
  have "session_inv (nat (count g)) (run (startSession naturalW naturalH g rot sd rnd) as)" .
  then show ?thesis
    by (simp add: partition_inv_iff session_inv_def)
qed


theorem partition_reachable_witness:
  "1 \<le> rows \<lparr>rows = 1, cols = 2, count = 2\<rparr> \<and> 1 \<le> cols \<lparr>rows = 1, cols = 2, count = 2\<rparr>
   \<and> rows \<lparr>rows = 1, cols = 2, count = 2\<rparr> * cols \<lparr>rows = 1, cols = 2, count = 2\<rparr>
       = count \<lparr>rows = 1, cols = 2, count = 2\<rparr>
   \<and> unit_draws (\<lambda>k. 0)
   \<and> list_all valid_action [Select 1, AttemptPlace 1]
   \<and> trayOrder (run (startSession 100 100 \<lparr>rows = 1, cols = 2, count = 2\<rparr> False None (\<lambda>k. 0))
                  [Select 1, AttemptPlace 1]) = [0]
   \<and> placements (run (startSession 100 100 \<lparr>rows = 1, cols = 2, count = 2\<rparr> False None (\<lambda>k. 0))
                  [Select 1, AttemptPlace 1]) = [None, Some 1]
   \<and> partition_inv (run (startSession 100 100 \<lparr>rows = 1, cols = 2, count = 2\<rparr> False None (\<lambda>k. 0))
                  [Select 1, AttemptPlace 1])"
proof -
  let ?g = "\<lparr>rows = 1, cols = 2, count = 2\<rparr>"
  have h1: "1 \<le> rows ?g" and h2: "1 \<le> cols ?g" and h3: "rows ?g * cols ?g = count ?g"
    by simp_all
  have h4: "unit_draws (\<lambda>k. 0)" by (simp add: unit_draws_def)
  have h5: "list_all valid_action [Select 1, AttemptPlace 1]" by simp
  have e: "trayOrder (run (startSession 100 100 ?g False None (\<lambda>k. 0))
                  [Select 1, AttemptPlace 1]) = [0]
     \<and> placements (run (startSession 100 100 ?g False None (\<lambda>k. 0))
                  [Select 1, AttemptPlace 1]) = [None, Some 1]"
    unfolding run_eval by simp
  from partition_reachable [OF h1 h2 h3 h4 h5, of 100 100 False None] h1 h2 h3 h4 h5 e
  show ?thesis by blast
qed

section \<open>Properties of the layout and the clipped draw\<close>











section \<open>Properties of the piece layout\<close>

lemma divisors_1000:
  "divisors 1000 = [1, 2, 4, 5, 8, 10, 20, 25, 40, 50, 100, 125, 200, 250, 500, 1000]"
  by code_simp

lemma findBestGrid_1000_10:
  "findBestGrid 1000 (Fin 10) = \<lparr>rows = 10, cols = 100, count = 1000\<rparr>"
  unfolding findBestGrid_def divisors_1000
  by (simp add: best_step_def score_of_def js_gt_def Let_def abs_if)


lemma piecesFor_geometry:
  "p \<in> set (fst (piecesFor naturalW naturalH g rr rnd cells k)) \<Longrightarrow>
     tileW p = gp_outTileW naturalW naturalH g \<and> tileH p = gp_outTileH naturalW naturalH g
     \<and> pad p = gp_pad naturalW naturalH g
     \<and> outW p = gp_outW naturalW naturalH g \<and> outH p = gp_outH naturalW naturalH g"
proof (induction cells arbitrary: k)
  case Nil
  then show ?case by simp
next
  case (Cons rc cells)
  obtain r c where rc: "rc = (r, c)" by (cases rc)
  from Cons.prems Cons.IH [of "k + 1"] Cons.IH [of k] show ?case
    by (cases rr) (auto simp: rc Let_def newPiece_def case_prod_beta)
qed

lemma generatePieces_geometry:
  assumes "p \<in> set (fst (generatePieces naturalW naturalH g opts rnd))"
  shows "tileW p = gp_outTileW naturalW naturalH g \<and> tileH p = gp_outTileH naturalW naturalH g
     \<and> pad p = gp_pad naturalW naturalH g
     \<and> outW p = gp_outW naturalW naturalH g \<and> outH p = gp_outH naturalW naturalH g"
  using assms piecesFor_geometry
  by (simp add: generatePieces_def Let_def case_prod_beta)

lemma generatePieces_length:
  "length (fst (generatePieces naturalW naturalH g opts rnd)) = nat (rows g) * nat (cols g)"
  using generatePieces_ids [of naturalW naturalH g opts rnd]
  by (metis length_map length_upt minus_nat.diff_0)

lemma three_roundings:
  "900 * ((1 + 1 / 2 ^ 53) * (1 + 1 / 2 ^ 53) * (1 + 1 / 2 ^ 53)) < (901::real)"
  by simp

text \<open>
  Three roundings stand between the exact product and the floored one; each adds at most
  \<open>2^-53\<close> of the value, too little to reach the next integer above 900.
\<close>

lemma scaled_board_le:
  assumes "0 < W" and "W \<le> M" and "1 \<le> n"
  shows "n * floorScaled W n M \<le> 900"
proof -
  define u :: real where "u = 1 + 1 / 2 ^ 53"
  define a where "a = rd (W / real_of_int n)"
  define b where "b = rd (maxBoardPx / M)"
  define s where "s = min 1 b"
  have u: "0 < u" by (simp add: u_def)
  have n: "0 < real_of_int n" using assms(3) by simp
  have M: "0 < M" using assms(1,2) by linarith
  have wn: "0 < W / real_of_int n" using assms(1) n by simp
  have mm: "0 < maxBoardPx / M" using M by (simp add: maxBoardPx_def)
  have a0: "0 < a" unfolding a_def by (rule rd_pos [OF wn])
  have a1: "a \<le> W / real_of_int n * u" unfolding a_def u_def by (rule rd_upper [OF wn])
  have b0: "0 < b" unfolding b_def by (rule rd_pos [OF mm])
  have b1: "b \<le> 900 / M * u"
    using rd_upper [OF mm] by (simp add: b_def u_def maxBoardPx_def)
  have s0: "0 < s" using b0 by (simp add: s_def)
  have s1: "s \<le> 900 / M * u" using b1 by (simp add: s_def)
  have as0: "0 < a * s" using a0 s0 by (rule mult_pos_pos)
  have "rd (a * s) \<le> a * s * u" unfolding u_def by (rule rd_upper [OF as0])
  also have "\<dots> \<le> (W / real_of_int n * u) * (900 / M * u) * u"
    using a1 s1 a0 s0 u by (intro mult_right_mono mult_mono) simp_all
  also have "\<dots> = (W / M) * (900 * (u * u * u)) / real_of_int n"
    by (simp add: mult_ac)
  finally have r: "rd (a * s) \<le> (W / M) * (900 * (u * u * u)) / real_of_int n" .
  have wm: "W / M \<le> 1" using assms(2) M by simp
  have "real_of_int (floorScaled W n M) \<le> rd (a * s)"
    by (simp add: floorScaled_def a_def b_def s_def)
  with r have "real_of_int (floorScaled W n M) \<le> (W / M) * (900 * (u * u * u)) / real_of_int n"
    by linarith
  then have "real_of_int (floorScaled W n M) * real_of_int n \<le> (W / M) * (900 * (u * u * u))"
    using n by (simp only: pos_le_divide_eq)
  then have "real_of_int n * real_of_int (floorScaled W n M) \<le> (W / M) * (900 * (u * u * u))"
    by (simp only: mult.commute)
  also have "\<dots> \<le> 1 * (900 * (u * u * u))"
    using wm u by (intro mult_right_mono) simp_all
  also have "\<dots> < 901" using three_roundings by (simp add: u_def)
  finally have "real_of_int (n * floorScaled W n M) < real_of_int 901" by simp
  then have "n * floorScaled W n M < 901" by (simp only: of_int_less_iff)
  then show ?thesis by simp
qed

text \<open>
  Claim C8, as the code has it. For every generated piece,
  \<open>pad = max(6, floor(min(tileW, tileH) * 0.18))\<close>, \<open>outW = tileW + 2 pad\<close> and
  \<open>outH = tileH + 2 pad\<close>, where the output tile is
  \<open>tileW = max(10, floor(naturalW / cols * scale))\<close> and
  \<open>tileH = max(10, floor(naturalH / rows * scale))\<close> with
  \<open>scale = min(1, 900 / max(naturalW, naturalH))\<close>, every quotient and product being
  the double the code computes (\<open>rd\<close> of the exact value) before \<open>Math.floor\<close> reads it.
  The board side \<open>cols * tileW\<close> (\<open>rows * tileH\<close>) is at most 900 whenever the floored
  tile side is at least the 10-pixel minimum.
\<close>

theorem piece_geometry:
  assumes "p \<in> set (fst (generatePieces naturalW naturalH g opts rnd))"
    and "0 < naturalW" and "0 < naturalH"
  shows "pad p = max 6 \<lfloor>rd (real_of_int (min (tileW p) (tileH p)) * rd 0.18)\<rfloor>
       \<and> outW p = tileW p + 2 * pad p
       \<and> outH p = tileH p + 2 * pad p
       \<and> tileW p = max 10 \<lfloor>rd (rd (naturalW / real_of_int (cols g))
                                  * min 1 (rd (900 / max naturalW naturalH)))\<rfloor>
       \<and> tileH p = max 10 \<lfloor>rd (rd (naturalH / real_of_int (rows g))
                                  * min 1 (rd (900 / max naturalW naturalH)))\<rfloor>
       \<and> (10 \<le> \<lfloor>rd (rd (naturalW / real_of_int (cols g))
                       * min 1 (rd (900 / max naturalW naturalH)))\<rfloor>
            \<longrightarrow> cols g * tileW p \<le> 900)
       \<and> (10 \<le> \<lfloor>rd (rd (naturalH / real_of_int (rows g))
                       * min 1 (rd (900 / max naturalW naturalH)))\<rfloor>
            \<longrightarrow> rows g * tileH p \<le> 900)"
proof -
  note geo = generatePieces_geometry [OF assms(1)]
  let ?M = "max naturalW naturalH"
  let ?fw = "\<lfloor>rd (rd (naturalW / real_of_int (cols g)) * min 1 (rd (900 / ?M)))\<rfloor>"
  let ?fh = "\<lfloor>rd (rd (naturalH / real_of_int (rows g)) * min 1 (rd (900 / ?M)))\<rfloor>"
  from assms(1) have "0 < length (fst (generatePieces naturalW naturalH g opts rnd))"
    by (metis length_pos_if_in_set)
  then have "0 < nat (rows g) * nat (cols g)"
    by (simp only: generatePieces_length)
  then have rc: "1 \<le> rows g" "1 \<le> cols g" by simp_all
  have fw: "floorScaled naturalW (cols g) ?M = ?fw"
    and fh: "floorScaled naturalH (rows g) ?M = ?fh"
    by (simp_all add: floorScaled_def maxBoardPx_def)
  have capW: "cols g * ?fw \<le> 900"
    unfolding fw [symmetric] by (rule scaled_board_le [OF assms(2) _ rc(2)]) simp
  have capH: "rows g * ?fh \<le> 900"
    unfolding fh [symmetric] by (rule scaled_board_le [OF assms(3) _ rc(1)]) simp
  have c1: "pad p = max 6 \<lfloor>rd (real_of_int (min (tileW p) (tileH p)) * rd 0.18)\<rfloor>"
    using geo by (simp add: gp_pad_def)
  have c2: "outW p = tileW p + 2 * pad p" and c3: "outH p = tileH p + 2 * pad p"
    using geo by (simp_all add: gp_outW_def gp_outH_def)
  have c4: "tileW p = max 10 ?fw"
    using geo by (simp add: gp_outTileW_def fw)
  have c5: "tileH p = max 10 ?fh"
    using geo by (simp add: gp_outTileH_def fh)
  have c6: "cols g * tileW p \<le> 900" if "10 \<le> ?fw"
  proof -
    from that c4 have "tileW p = ?fw" by (simp only: max_absorb2)
    with capW show ?thesis by (simp only:)
  qed
  have c7: "rows g * tileH p \<le> 900" if "10 \<le> ?fh"
  proof -
    from that c5 have "tileH p = ?fh" by (simp only: max_absorb2)
    with capH show ?thesis by (simp only:)
  qed
  from c1 c2 c3 c4 c5 c6 c7 show ?thesis by blast
qed

text \<open>
  A 1650 by 1650 image cut into one row of two pieces: the tiles are 449 by 899 and the
  board is 898 wide.
\<close>

lemma generatePieces_example:
  "fst (generatePieces 1650 1650 \<lparr>rows = 1, cols = 2, count = 2\<rparr>
          \<lparr>randomRotation = False, seed = None\<rparr> (\<lambda>k. 0))
   = [\<lparr>p_id = 0, row = 0, col = 0, outW = 609, outH = 1059, tileW = 449, tileH = 899, pad = 80,
        rotation = R0, placed = False\<rparr>,
      \<lparr>p_id = 1, row = 0, col = 1, outW = 609, outH = 1059, tileW = 449, tileH = 899, pad = 80,
        rotation = R0, placed = False\<rparr>]"
  by (simp add: generatePieces_def buildEdges_def gridCells_def newEdgeSpec_def Let_def
      numeral_2_eq_2 upt_rec newPiece_def layout_1650)

theorem piece_geometry_witness:
  "\<lparr>p_id = 0, row = 0, col = 0, outW = 609, outH = 1059, tileW = 449, tileH = 899, pad = 80,
     rotation = R0, placed = False\<rparr>
     \<in> set (fst (generatePieces 1650 1650 \<lparr>rows = 1, cols = 2, count = 2\<rparr>
                     \<lparr>randomRotation = False, seed = None\<rparr> (\<lambda>k. 0)))
   \<and> (0::real) < 1650
   \<and> \<lfloor>rd (rd (1650 / real_of_int (cols \<lparr>rows = 1, cols = 2, count = 2\<rparr>))
            * min 1 (rd (900 / max 1650 1650)))\<rfloor> = 449
   \<and> (10::int) \<le> \<lfloor>rd (rd (1650 / real_of_int (cols \<lparr>rows = 1, cols = 2, count = 2\<rparr>))
                        * min 1 (rd (900 / max 1650 1650)))\<rfloor>
   \<and> cols \<lparr>rows = 1, cols = 2, count = 2\<rparr>
       * tileW \<lparr>p_id = 0, row = 0, col = 0, outW = 609, outH = 1059, tileW = 449, tileH = 899,
                 pad = 80, rotation = R0, placed = False\<rparr> \<le> 900"
proof -
  let ?p = "\<lparr>p_id = 0, row = 0, col = 0, outW = 609, outH = 1059, tileW = 449, tileH = 899,
     pad = 80, rotation = R0, placed = False\<rparr>"
  let ?g = "\<lparr>rows = 1, cols = 2, count = 2\<rparr>"
  let ?f = "\<lfloor>rd (rd (1650 / real_of_int (cols ?g)) * min 1 (rd (900 / max 1650 1650)))\<rfloor>"
  have h1: "?p \<in> set (fst (generatePieces 1650 1650 ?g \<lparr>randomRotation = False, seed = None\<rparr> (\<lambda>k. 0)))"
    unfolding generatePieces_example by simp
  have h2: "(0::real) < 1650" by simp
  have s: "rd (900 / 1650) < 1" unfolding rd_611 by simp
  have v: "?f = 449"
    using rd_449 s by (simp add: rd_numeral min_def)
  then have h3: "(10::int) \<le> ?f" by (simp only:)
  from piece_geometry [OF h1 h2 h2] h3 have "cols ?g * tileW ?p \<le> 900" by blast
  with h1 h2 v h3 show ?thesis by blast
qed

text \<open>
  The 10-pixel minimum can lift the board above the cap. A 9000 by 900 image cut into 10
  rows of 100 pieces, the grid \<open>findBestGrid\<close> gives for 1000 pieces at that ratio, has
  a floored tile width of 9; every piece is then 10 wide and the board 1000.
\<close>

theorem board_cap_counterexample:
  "findBestGrid 1000 (Fin 10) = \<lparr>rows = 10, cols = 100, count = 1000\<rparr>
   \<and> \<lfloor>rd (rd (9000 / real_of_int (cols \<lparr>rows = 10, cols = 100, count = 1000\<rparr>))
            * min 1 (rd (900 / max 9000 900)))\<rfloor> = 9
   \<and> (\<exists>p \<in> set (fst (generatePieces 9000 900 \<lparr>rows = 10, cols = 100, count = 1000\<rparr>
                              \<lparr>randomRotation = True, seed = None\<rparr> (\<lambda>k. 0))).
          tileW p = 10
        \<and> cols \<lparr>rows = 10, cols = 100, count = 1000\<rparr> * tileW p = 1000
        \<and> 900 < cols \<lparr>rows = 10, cols = 100, count = 1000\<rparr> * tileW p)"
proof -
  let ?g = "\<lparr>rows = 10, cols = 100, count = 1000\<rparr>"
  let ?ps = "fst (generatePieces 9000 900 ?g \<lparr>randomRotation = True, seed = None\<rparr> (\<lambda>k. 0))"
  have s: "rd (900 / 9000) < 1"
  proof -
    have eq: "(900::real) / 9000 = 1 / 10" by simp
    show ?thesis unfolding eq rd_tenth by simp
  qed
  have f: "\<lfloor>rd (rd (9000 / real_of_int (cols ?g)) * min 1 (rd (900 / max 9000 900)))\<rfloor> = 9"
    using rd_9 s by (simp add: rd_numeral min_def)
  have "length ?ps = 1000" by (simp add: generatePieces_length)
  then have "?ps \<noteq> []" by auto
  then obtain p where p: "p \<in> set ?ps" by (meson last_in_set)
  from generatePieces_geometry [OF p] have "tileW p = gp_outTileW 9000 900 ?g" by simp
  also have "\<dots> = 10" by (rule outTileW_9000)
  finally have "tileW p = 10" .
  with p findBestGrid_1000_10 f show ?thesis by auto
qed


section \<open>Inputs the pipeline does not reject\<close>

lemma estimate_grid:
  "q_grid (estimateQualityForCount w h n) = findBestGrid n (js_div w h)"
  by (simp add: estimateQualityForCount_def Let_def)

lemma gate_cases:
  "loadPuzzleFromModal_grid w h n =
     (if \<not> ok (estimateQualityForCount w h n) \<and> n \<noteq> 1000 then Inl QualityTooLow
      else Inr (findBestGrid n (js_div w h)))"
  by (simp add: loadPuzzleFromModal_grid_def Let_def estimate_grid)

text \<open>
  Claim C6, as the code has it. No input is refused for its sign. \<open>findBestGrid\<close> checks
  nothing: for every requested count, zero and negative ones included, and every aspect
  ratio it returns a grid whose count is the request and whose rows times columns equal
  it, and \<open>estimateQualityForCount\<close> hands that grid on. The one refusal in front of
  generation is the tile-quality test of \<open>loadPuzzleFromModal\<close>, which 1000 pieces
  always pass. The counts the interface offers are all positive.
\<close>

theorem no_input_rejection:
  "count (findBestGrid n A) = n
   \<and> rows (findBestGrid n A) * cols (findBestGrid n A) = n
   \<and> q_grid (estimateQualityForCount w h n) = findBestGrid n (js_div w h)
   \<and> (loadPuzzleFromModal_grid w h n = Inl QualityTooLow)
       = (\<not> ok (estimateQualityForCount w h n) \<and> n \<noteq> 1000)
   \<and> (loadPuzzleFromModal_grid w h n = Inr (findBestGrid n (js_div w h)))
       = (ok (estimateQualityForCount w h n) \<or> n = 1000)
   \<and> list_all (\<lambda>c. 1 \<le> c) PIECE_COUNTS"
  using findBestGrid_prod [of n A]
  by (simp add: estimate_grid gate_cases PIECE_COUNTS_def)

lemma divisors_0: "divisors 0 = []"
  by code_simp

lemma findBestGrid_0: "findBestGrid 0 (Fin 1) = \<lparr>rows = 1, cols = 0, count = 0\<rparr>"
  by (simp add: findBestGrid_def divisors_0 best_step_def score_of_def js_gt_def Let_def)

theorem zero_count_counterexample:
  "findBestGrid 0 (Fin 1) = \<lparr>rows = 1, cols = 0, count = 0\<rparr>
   \<and> loadPuzzleFromModal_grid (Fin 1000) (Fin 1000) 0 = Inr \<lparr>rows = 1, cols = 0, count = 0\<rparr>
   \<and> findBestGrid 50 (Fin 0) = \<lparr>rows = 1, cols = 50, count = 50\<rparr>"
proof -
  have a: "loadPuzzleFromModal_grid (Fin 1000) (Fin 1000) 0 = Inr \<lparr>rows = 1, cols = 0, count = 0\<rparr>"
    by (simp add: loadPuzzleFromModal_grid_def estimateQualityForCount_def Let_def findBestGrid_0)
  have b: "findBestGrid 50 (Fin 0) = \<lparr>rows = 1, cols = 50, count = 50\<rparr>"
    unfolding findBestGrid_def divisors_50
    by (simp add: best_step_def score_of_def js_gt_def Let_def)
  from findBestGrid_0 a b show ?thesis by simp
qed

section \<open>The draws behind the edges\<close>

lemma newEdgeSpec_snd: "snd (newEdgeSpec rnd k) = k + 4"
  by (simp add: newEdgeSpec_def)

lemma newEdgeSpec_cong:
  assumes "\<And>i. i < 4 \<Longrightarrow> rnd (k + i) = rnd' (k + i)"
  shows "newEdgeSpec rnd k = newEdgeSpec rnd' k"
  using assms [of 0] assms [of 1] assms [of 2] assms [of 3]
  by (simp add: newEdgeSpec_def)

lemma edgeRow_snd: "snd (edgeRow rnd n k) = k + 4 * n"
  by (induction n arbitrary: k) (simp_all add: case_prod_beta Let_def newEdgeSpec_snd)

lemma edgeRow_cong:
  assumes "\<And>i. i < 4 * n \<Longrightarrow> rnd (k + i) = rnd' (k + i)"
  shows "edgeRow rnd n k = edgeRow rnd' n k"
  using assms
proof (induction n arbitrary: k)
  case 0
  show ?case by simp
next
  case (Suc n)
  have e: "newEdgeSpec rnd k = newEdgeSpec rnd' k"
    by (rule newEdgeSpec_cong) (simp add: Suc.prems)
  have "edgeRow rnd n (k + 4) = edgeRow rnd' n (k + 4)"
  proof (rule Suc.IH)
    fix i assume "i < 4 * n"
    then have "4 + i < 4 * Suc n" by simp
    from Suc.prems [OF this] show "rnd (k + 4 + i) = rnd' (k + 4 + i)"
      by (simp only: add.assoc)
  qed
  then show ?case
    using newEdgeSpec_snd [of rnd' k] by (simp add: e case_prod_beta Let_def)
qed

lemma edgeRows_snd: "snd (edgeRows rnd m n k) = k + 4 * (m * n)"
  by (induction m arbitrary: k) (simp_all add: case_prod_beta Let_def edgeRow_snd algebra_simps)

lemma edgeRows_cong:
  assumes "\<And>i. i < 4 * (m * n) \<Longrightarrow> rnd (k + i) = rnd' (k + i)"
  shows "edgeRows rnd m n k = edgeRows rnd' m n k"
  using assms
proof (induction m arbitrary: k)
  case 0
  show ?case by simp
next
  case (Suc m)
  have r: "edgeRow rnd n k = edgeRow rnd' n k"
    by (rule edgeRow_cong) (simp add: Suc.prems)
  have "edgeRows rnd m n (k + 4 * n) = edgeRows rnd' m n (k + 4 * n)"
  proof (rule Suc.IH)
    fix i assume "i < 4 * (m * n)"
    then have "4 * n + i < 4 * (Suc m * n)" by simp
    from Suc.prems [OF this] show "rnd (k + 4 * n + i) = rnd' (k + 4 * n + i)"
      by (simp only: add.assoc)
  qed
  then show ?case
    using edgeRow_snd [of rnd' n k] by (simp add: r case_prod_beta Let_def)
qed

lemma buildEdges_cong:
  assumes "\<And>i. i < 4 * (nat (rows g) * nat (cols g - 1) + nat (rows g - 1) * nat (cols g))
             \<Longrightarrow> rnd (k + i) = rnd' (k + i)"
  shows "buildEdges g rnd k = buildEdges g rnd' k"
proof -
  let ?a = "nat (rows g) * nat (cols g - 1)"
  let ?b = "nat (rows g - 1) * nat (cols g)"
  have v: "edgeRows rnd (nat (rows g)) (nat (cols g - 1)) k
         = edgeRows rnd' (nat (rows g)) (nat (cols g - 1)) k"
    by (rule edgeRows_cong) (simp add: assms)
  have h: "edgeRows rnd (nat (rows g - 1)) (nat (cols g)) (k + 4 * ?a)
         = edgeRows rnd' (nat (rows g - 1)) (nat (cols g)) (k + 4 * ?a)"
  proof (rule edgeRows_cong)
    fix i assume "i < 4 * ?b"
    then have "4 * ?a + i < 4 * (?a + ?b)" by simp
    from assms [OF this] show "rnd (k + 4 * ?a + i) = rnd' (k + 4 * ?a + i)"
      by (simp only: add.assoc)
  qed
  have m: "nat (max 0 (cols g - 1)) = nat (cols g - 1)" "nat (max 0 (rows g - 1)) = nat (rows g - 1)"
    by simp_all
  show ?thesis
    unfolding buildEdges_def m
    using h edgeRows_snd [of rnd' "nat (rows g)" "nat (cols g - 1)" k]
    by (simp add: v case_prod_beta Let_def)
qed

text \<open>
  Claim C2, as the code has it. \<open>generatePieces\<close> in this revision takes no seed and
  holds no generator: its options are \<open>randomRotation\<close> and \<open>onProgress\<close>, and
  \<open>buildEdges\<close> reads \<open>Math.random()\<close>, four draws for every interior edge, the
  vertical edges first. The edge matrices are a function of the grid and of those draws:
  two runs over the same grid in which the first
  \<open>4 * (rows * (cols - 1) + (rows - 1) * cols)\<close> values of \<open>Math.random()\<close> agree
  build the same matrices, whatever options either run is given.
\<close>

theorem edges_determined_by_draws:
  assumes "map rnd [0 ..< 4 * (nat (rows g) * nat (cols g - 1) + nat (rows g - 1) * nat (cols g))]
         = map rnd' [0 ..< 4 * (nat (rows g) * nat (cols g - 1) + nat (rows g - 1) * nat (cols g))]"
  shows "generatePieces_edges g opts rnd = generatePieces_edges g opts' rnd'"
proof -
  have "buildEdges g rnd 0 = buildEdges g rnd' 0"
  proof (rule buildEdges_cong)
    fix i
    assume "i < 4 * (nat (rows g) * nat (cols g - 1) + nat (rows g - 1) * nat (cols g))"
    with assms show "rnd (0 + i) = rnd' (0 + i)" by simp
  qed
  then show ?thesis by (simp only: generatePieces_edges_def)
qed

theorem edges_determined_by_draws_witness:
  "map (\<lambda>k. if k < 4 then 1 / 4 else 0)
       [0 ..< 4 * (nat (rows \<lparr>rows = 1, cols = 2, count = 2\<rparr>)
                    * nat (cols \<lparr>rows = 1, cols = 2, count = 2\<rparr> - 1)
                  + nat (rows \<lparr>rows = 1, cols = 2, count = 2\<rparr> - 1)
                    * nat (cols \<lparr>rows = 1, cols = 2, count = 2\<rparr>))]
   = map (\<lambda>k. if k < 4 then 1 / 4 else (1::real))
       [0 ..< 4 * (nat (rows \<lparr>rows = 1, cols = 2, count = 2\<rparr>)
                    * nat (cols \<lparr>rows = 1, cols = 2, count = 2\<rparr> - 1)
                  + nat (rows \<lparr>rows = 1, cols = 2, count = 2\<rparr> - 1)
                    * nat (cols \<lparr>rows = 1, cols = 2, count = 2\<rparr>))]
   \<and> generatePieces_edges \<lparr>rows = 1, cols = 2, count = 2\<rparr>
        \<lparr>randomRotation = False, seed = None\<rparr> (\<lambda>k. if k < 4 then 1 / 4 else 0)
     = generatePieces_edges \<lparr>rows = 1, cols = 2, count = 2\<rparr>
        \<lparr>randomRotation = True, seed = Some 42\<rparr> (\<lambda>k. if k < 4 then 1 / 4 else 1)
   \<and> vEdges (generatePieces_edges \<lparr>rows = 1, cols = 2, count = 2\<rparr>
        \<lparr>randomRotation = True, seed = Some 42\<rparr> (\<lambda>k. if k < 4 then 1 / 4 else 1))
     = [[\<lparr>sign = 1, widthF = 0.955, neckF = 0.955, skewF = - 0.5\<rparr>]]"
proof -
  let ?g = "\<lparr>rows = 1, cols = 2, count = 2\<rparr>"
  let ?r = "\<lambda>k::nat. if k < 4 then 1 / 4 else (0::real)"
  let ?r' = "\<lambda>k::nat. if k < 4 then 1 / 4 else (1::real)"
  let ?n = "4 * (nat (rows ?g) * nat (cols ?g - 1) + nat (rows ?g - 1) * nat (cols ?g))"
  have h: "map ?r [0 ..< ?n] = map ?r' [0 ..< ?n]" by simp
  have v: "vEdges (generatePieces_edges ?g \<lparr>randomRotation = True, seed = Some 42\<rparr> ?r')
      = [[\<lparr>sign = 1, widthF = 0.955, neckF = 0.955, skewF = - 0.5\<rparr>]]"
    by (simp add: generatePieces_edges_def buildEdges_def newEdgeSpec_def rand_def Let_def)
  from edges_determined_by_draws [OF h] h v show ?thesis by blast
qed

text \<open>
  Equal seeds do not give equal edges. Two runs with the same grid and the same options,
  a seed among them, in which \<open>Math.random()\<close> returns 0.25 throughout the first and
  0.75 throughout the second, give the one vertical edge of a two-piece row opposite
  signs.
\<close>

theorem seed_determinism_counterexample:
  "generatePieces_edges \<lparr>rows = 1, cols = 2, count = 2\<rparr>
      \<lparr>randomRotation = False, seed = Some 42\<rparr> (\<lambda>k. 1 / 4)
     \<noteq> generatePieces_edges \<lparr>rows = 1, cols = 2, count = 2\<rparr>
      \<lparr>randomRotation = False, seed = Some 42\<rparr> (\<lambda>k. 3 / 4)
   \<and> sign (vEdges (generatePieces_edges \<lparr>rows = 1, cols = 2, count = 2\<rparr>
                   \<lparr>randomRotation = False, seed = Some 42\<rparr> (\<lambda>k. 1 / 4)) ! 0 ! 0) = 1
   \<and> sign (vEdges (generatePieces_edges \<lparr>rows = 1, cols = 2, count = 2\<rparr>
                   \<lparr>randomRotation = False, seed = Some 42\<rparr> (\<lambda>k. 3 / 4)) ! 0 ! 0) = - 1
   \<and> fst (buildEdges \<lparr>rows = 1, cols = 2, count = 2\<rparr> (\<lambda>k. 1 / 4) 0)
     \<noteq> fst (buildEdges \<lparr>rows = 1, cols = 2, count = 2\<rparr> (\<lambda>k. 3 / 4) 0)"
proof -
  let ?g = "\<lparr>rows = 1, cols = 2, count = 2\<rparr>"
  let ?o = "\<lparr>randomRotation = False, seed = Some 42\<rparr>"
  have a: "sign (vEdges (generatePieces_edges ?g ?o (\<lambda>k. 1 / 4)) ! 0 ! 0) = 1"
    by (simp add: generatePieces_edges_def buildEdges_def newEdgeSpec_def Let_def)
  have b: "sign (vEdges (generatePieces_edges ?g ?o (\<lambda>k. 3 / 4)) ! 0 ! 0) = - 1"
    by (simp add: generatePieces_edges_def buildEdges_def newEdgeSpec_def Let_def)
  from a b have c: "generatePieces_edges ?g ?o (\<lambda>k. 1 / 4) \<noteq> generatePieces_edges ?g ?o (\<lambda>k. 3 / 4)"
    by auto
  have d: "fst (buildEdges ?g (\<lambda>k. 1 / 4) 0) \<noteq> fst (buildEdges ?g (\<lambda>k. 3 / 4) 0)"
    using c unfolding generatePieces_edges_def .
  from a b c d show ?thesis by blast
qed

end
